theory Spec2Isabelle
  imports
    Complex_Main
    "HOL-Library.Char_ord"
    "HOL-Library.List_Lexorder"
    "HOL-Library.Product_Lexorder"
begin

section \<open>Retry policy and backoff (build\_transfers\_backfill.py)\<close>

text \<open>
  \<^verbatim>\<open>RetryPolicy\<close> is a dataclass of one integer and three Python floats. The floats
  are modelled as exact reals: every value the schedule produces for the default policy
  (powers of two up to \<open>2^1023\<close>, and the cap) is a binary float, so nothing is rounded
  there; rounding of other floats and the \<^verbatim>\<open>OverflowError\<close> of converting an integer
  beyond the float range are outside the model.
\<close>

record RetryPolicy =
  max_attempts :: int
  base_sleep :: real
  max_sleep :: real
  jitter :: real

definition default_policy :: RetryPolicy where
  "default_policy = \<lparr>max_attempts = 12, base_sleep = 1, max_sleep = 120, jitter = 1 / 4\<rparr>"

text \<open>
  \<^verbatim>\<open>min(float(retry_after_s), policy.max_sleep)\<close> when the hint is present, else
  \<^verbatim>\<open>min(policy.base_sleep * (2 ** (attempt_no - 1)), policy.max_sleep)\<close>. Python's
  \<^verbatim>\<open>2 ** k\<close> is \<open>1 / 2 ^ (-k)\<close> for a negative \<open>k\<close>, which is \<open>2 powi k\<close>.
\<close>

definition compute_backoff :: "RetryPolicy \<Rightarrow> int \<Rightarrow> int option \<Rightarrow> real" where
  "compute_backoff policy attempt_no retry_after_s =
     (case retry_after_s of
        Some ra \<Rightarrow> min (real_of_int ra) (max_sleep policy)
      | None \<Rightarrow>
          (let base = base_sleep policy * (2 powi (attempt_no - 1))
           in min base (max_sleep policy)))"

text \<open>Python's \<^verbatim>\<open>int(x)\<close> on a float truncates towards zero.\<close>

definition py_int_of_float :: "real \<Rightarrow> int" where
  "py_int_of_float x = (if 0 \<le> x then \<lfloor>x\<rfloor> else \<lceil>x\<rceil>)"

section \<open>The queue table\<close>

text \<open>
  One row of \<^verbatim>\<open>transfers_backfill_queue\<close>. The \<^verbatim>\<open>CHECK\<close> constraint admits the four
  status strings only; the nullable columns are options. The table is the list of its
  rows in insertion order.
\<close>

datatype status = Pending | InProgress | Done | Failed

record queue_row =
  permit_key :: string
  status :: status
  attempts :: int
  next_retry_at :: "int option"
  locked_at :: "int option"
  lock_owner :: "string option"
  last_error :: "string option"
  updated_at :: int

type_synonym queue = "queue_row list"

text \<open>\<^verbatim>\<open>permit_key TEXT PRIMARY KEY\<close>: no two rows share a key.\<close>

definition queue_keys :: "queue \<Rightarrow> string list" where
  "queue_keys q = map permit_key q"

definition wf_queue :: "queue \<Rightarrow> bool" where
  "wf_queue q = distinct (queue_keys q)"

text \<open>Python's \<^verbatim>\<open>xs[:n]\<close>: a negative \<open>n\<close> counts from the end.\<close>

definition py_slice_to :: "'a list \<Rightarrow> int \<Rightarrow> 'a list" where
  "py_slice_to xs n =
     (if n < 0 then take (nat (int (length xs) + n)) xs else take (nat n) xs)"

text \<open>
  The row that \<^verbatim>\<open>seed_queue\<close> inserts for key \<open>k\<close> at time \<open>t\<close>:
  \<^verbatim>\<open>VALUES (?, 'pending', 0, NULL, NULL, NULL, NULL, ?)\<close>.
\<close>

definition new_row :: "int \<Rightarrow> string \<Rightarrow> queue_row" where
  "new_row t k =
     \<lparr>permit_key = k, status = Pending, attempts = 0, next_retry_at = None,
      locked_at = None, lock_owner = None, last_error = None, updated_at = t\<rparr>"

text \<open>
  \<^verbatim>\<open>INSERT OR IGNORE\<close>: a row whose key is already in the table is dropped and the
  cursor's \<^verbatim>\<open>rowcount\<close> is 0; otherwise the row is appended and \<^verbatim>\<open>rowcount\<close> is 1.
\<close>

definition insert_or_ignore :: "queue \<Rightarrow> queue_row \<Rightarrow> queue \<times> int" where
  "insert_or_ignore q r =
     (if permit_key r \<in> set (queue_keys q) then (q, 0) else (q @ [r], 1))"

text \<open>The \<^verbatim>\<open>for k in keys\<close> loop of \<^verbatim>\<open>seed_queue\<close>, with the counter \<^verbatim>\<open>inserted\<close>.\<close>

fun seed_loop :: "int \<Rightarrow> string list \<Rightarrow> queue \<Rightarrow> int \<Rightarrow> queue \<times> int" where
  "seed_loop t [] q inserted = (q, inserted)"
| "seed_loop t (k # ks) q inserted =
     (case insert_or_ignore q (new_row t k) of
        (q', rowcount) \<Rightarrow> seed_loop t ks q' (inserted + rowcount))"

text \<open>
  \<^verbatim>\<open>seed_queue\<close>. The table \<^verbatim>\<open>permit_current\<close> is given by the list of its
  \<^verbatim>\<open>permit_key\<close> values; \<^verbatim>\<open>ORDER BY permit_key\<close> sorts them (strings compare
  byte by byte). \<open>t\<close> is the reading of \<^verbatim>\<open>now_epoch()\<close>.
\<close>

definition seed_keys :: "string list \<Rightarrow> int option \<Rightarrow> string list" where
  "seed_keys permit_current limit =
     (let keys = sort permit_current
      in case limit of None \<Rightarrow> keys | Some l \<Rightarrow> py_slice_to keys l)"

definition seed_queue :: "string list \<Rightarrow> int option \<Rightarrow> int \<Rightarrow> queue \<Rightarrow> queue \<times> int" where
  "seed_queue permit_current limit t q = seed_loop t (seed_keys permit_current limit) q 0"

section \<open>Claiming a row\<close>

text \<open>
  The \<^verbatim>\<open>WHERE\<close> clause shared by the \<^verbatim>\<open>SELECT\<close> and the \<^verbatim>\<open>UPDATE\<close> of
  \<^verbatim>\<open>claim_one\<close>, with its two parameters \<open>t\<close> and \<open>stale_before\<close>.
\<close>

definition eligible :: "int \<Rightarrow> int \<Rightarrow> queue_row \<Rightarrow> bool" where
  "eligible t stale_before r =
     (status r = Pending
      \<or> (status r = Failed \<and> (case next_retry_at r of None \<Rightarrow> False | Some n \<Rightarrow> n \<le> t))
      \<or> (status r = InProgress
          \<and> (case locked_at r of None \<Rightarrow> True | Some l \<Rightarrow> l \<le> stale_before)))"

text \<open>
  The \<^verbatim>\<open>ORDER BY\<close> key: the \<^verbatim>\<open>CASE status\<close> rank, \<^verbatim>\<open>COALESCE(next_retry_at, 0)\<close>,
  \<^verbatim>\<open>updated_at\<close>; triples are compared lexicographically.
\<close>

definition status_rank :: "status \<Rightarrow> int" where
  "status_rank s = (case s of Pending \<Rightarrow> 0 | Failed \<Rightarrow> 1 | InProgress \<Rightarrow> 2 | Done \<Rightarrow> 9)"

definition coalesce0 :: "int option \<Rightarrow> int" where
  "coalesce0 v = (case v of None \<Rightarrow> 0 | Some n \<Rightarrow> n)"

definition claim_order_key :: "queue_row \<Rightarrow> int \<times> int \<times> int" where
  "claim_order_key r = (status_rank (status r), coalesce0 (next_retry_at r), updated_at r)"

text \<open>
  \<^verbatim>\<open>SELECT ... ORDER BY ... LIMIT 1\<close>: a row of least key among the eligible ones.
  SQL leaves the choice among rows of equal key open; the model takes the earliest in
  table order.
\<close>

definition least_row :: "queue_row \<Rightarrow> queue_row list \<Rightarrow> queue_row" where
  "least_row r rs =
     fold (\<lambda>x best. if claim_order_key x < claim_order_key best then x else best) rs r"

definition claim_select :: "int \<Rightarrow> int \<Rightarrow> queue \<Rightarrow> queue_row option" where
  "claim_select t stale_before q =
     (case filter (eligible t stale_before) q of
        [] \<Rightarrow> None
      | r # rs \<Rightarrow> Some (least_row r rs))"

text \<open>
  The guarded \<^verbatim>\<open>UPDATE ... WHERE permit_key=? AND (...)\<close>; the second component is
  the cursor's \<^verbatim>\<open>rowcount\<close>.
\<close>

definition claim_guard :: "int \<Rightarrow> int \<Rightarrow> string \<Rightarrow> queue_row \<Rightarrow> bool" where
  "claim_guard t stale_before k r = (permit_key r = k \<and> eligible t stale_before r)"

definition claim_update :: "int \<Rightarrow> string \<Rightarrow> int \<Rightarrow> string \<Rightarrow> queue \<Rightarrow> queue \<times> int" where
  "claim_update t owner stale_before k q =
     (map (\<lambda>r. if claim_guard t stale_before k r
                then r\<lparr>status := InProgress, locked_at := Some t,
                       lock_owner := Some owner, updated_at := t\<rparr>
                else r) q,
      int (length (filter (claim_guard t stale_before k) q)))"

text \<open>
  \<^verbatim>\<open>claim_one\<close> run without interference: \<open>t\<close> is its one reading of
  \<^verbatim>\<open>now_epoch()\<close>. It returns the table and the claimed key, or \<open>None\<close>.
\<close>

definition claim_one :: "string \<Rightarrow> int \<Rightarrow> int \<Rightarrow> queue \<Rightarrow> queue \<times> string option" where
  "claim_one owner lock_timeout_s t q =
     (let stale_before = t - lock_timeout_s
      in case claim_select t stale_before q of
           None \<Rightarrow> (q, None)
         | Some row \<Rightarrow>
             (case claim_update t owner stale_before (permit_key row) q of
                (q', rowcount) \<Rightarrow>
                  if rowcount \<noteq> 1 then (q', None) else (q', Some (permit_key row))))"

text \<open>\<^verbatim>\<open>mark_done\<close> and \<^verbatim>\<open>mark_failed\<close>: unguarded updates of the rows with the key.\<close>

definition mark_done :: "int \<Rightarrow> string \<Rightarrow> queue \<Rightarrow> queue" where
  "mark_done t k q =
     map (\<lambda>r. if permit_key r = k
                then r\<lparr>status := Done, locked_at := None, lock_owner := None,
                       last_error := None, updated_at := t\<rparr>
                else r) q"

definition mark_failed :: "int \<Rightarrow> string \<Rightarrow> int \<Rightarrow> string \<Rightarrow> int option \<Rightarrow> queue \<Rightarrow> queue" where
  "mark_failed t k attempts_new err retry_in_s q =
     (let next_retry = (case retry_in_s of None \<Rightarrow> None | Some d \<Rightarrow> Some (t + d))
      in map (\<lambda>r. if permit_key r = k
                   then r\<lparr>status := Failed, attempts := attempts_new,
                          next_retry_at := next_retry, locked_at := None,
                          lock_owner := None, last_error := Some (take 2000 err),
                          updated_at := t\<rparr>
                   else r) q)"

section \<open>Fetching and classifying failures\<close>

text \<open>
  \<^verbatim>\<open>fetch_transfers\<close> and \<^verbatim>\<open>upsert_transfers\<close> live in \<^verbatim>\<open>src.transfers\<close>, outside
  these files, so what they return or raise is an input of the model. An exception
  carries its class name and its message; an \<^verbatim>\<open>HTTPError\<close> also its response, if
  any, with the status code and the \<^verbatim>\<open>Retry-After\<close> header.
\<close>

record payload =
  ajourDate :: "string option"
  transfers :: "string list"

record response =
  status_code :: int
  retry_after_header :: "string option"

datatype exc =
    Timeout string string
  | ConnectionError string string
  | HTTPError "response option" string string
  | OtherException string string

fun exc_name :: "exc \<Rightarrow> string" where
  "exc_name (Timeout n m) = n"
| "exc_name (ConnectionError n m) = n"
| "exc_name (HTTPError resp n m) = n"
| "exc_name (OtherException n m) = n"

fun exc_msg :: "exc \<Rightarrow> string" where
  "exc_msg (Timeout n m) = m"
| "exc_msg (ConnectionError n m) = m"
| "exc_msg (HTTPError resp n m) = m"
| "exc_msg (OtherException n m) = m"

text \<open>Decimal text of an integer, as an f-string prints it.\<close>

fun str_nat :: "nat \<Rightarrow> string" where
  "str_nat n =
     (if n < 10 then [char_of (48 + n)]
      else str_nat (n div 10) @ [char_of (48 + n mod 10)])"

definition str_int :: "int \<Rightarrow> string" where
  "str_int i = (if i < 0 then CHR ''-'' # str_nat (nat (- i)) else str_nat (nat i))"

text \<open>
  The header is read only when a response is there and the header is a non-empty
  string; \<open>py_int\<close> stands for Python's \<^verbatim>\<open>int(ra.strip())\<close>, \<open>None\<close> when it raises.
\<close>

definition parse_retry_after :: "(string \<Rightarrow> int option) \<Rightarrow> response option \<Rightarrow> int option" where
  "parse_retry_after py_int resp =
     (case resp of
        None \<Rightarrow> None
      | Some r \<Rightarrow>
          (case retry_after_header r of
             None \<Rightarrow> None
           | Some ra \<Rightarrow> if ra = [] then None else py_int ra))"

datatype handled =
    Fetched payload
  | RateLimitError "int option" string
  | TransientAPIError string
  | Reraised exc

definition fetch_transfers_with_handling ::
  "(string \<Rightarrow> int option) \<Rightarrow> string \<Rightarrow> exc + payload \<Rightarrow> handled" where
  "fetch_transfers_with_handling py_int k outcome =
     (case outcome of
        Inr p \<Rightarrow> Fetched p
      | Inl (Timeout n m) \<Rightarrow> TransientAPIError (''Timeout: '' @ m)
      | Inl (ConnectionError n m) \<Rightarrow> TransientAPIError (''ConnectionError: '' @ m)
      | Inl (HTTPError resp n m) \<Rightarrow>
          (let status = map_option status_code resp
           in if status = Some 404 then Fetched \<lparr>ajourDate = None, transfers = []\<rparr>
              else if status = Some 429
                then RateLimitError (parse_retry_after py_int resp) (''HTTP 429 for '' @ k)
              else (case status of
                      Some s \<Rightarrow>
                        if 500 \<le> s \<and> s \<le> 599
                        then TransientAPIError (''HTTP '' @ str_int s @ '' for '' @ k)
                        else Reraised (HTTPError resp n m)
                    | None \<Rightarrow> Reraised (HTTPError resp n m)))
      | Inl (OtherException n m) \<Rightarrow> Reraised (OtherException n m))"

section \<open>The worker: one claimed key\<close>

text \<open>
  A \<^verbatim>\<open>while True\<close> loop whose body either returns or goes round again. A loop that
  never returns has the value \<open>None\<close>.
\<close>

datatype ('s, 'r) loop_step = Continue 's | Return 'r

partial_function (option) while_true :: "('s \<Rightarrow> ('s, 'r) loop_step) \<Rightarrow> 's \<Rightarrow> 'r option" where
  "while_true body s =
     (case body s of Return r \<Rightarrow> Some r | Continue s' \<Rightarrow> while_true body s')"

declare while_true.simps [code]

text \<open>
  What the job did, in order: calls of \<^verbatim>\<open>fetch_transfers_with_handling\<close>, payloads
  handed to \<^verbatim>\<open>upsert_transfers\<close>, calls of \<^verbatim>\<open>compute_backoff\<close> with their attempt
  number and hint, and requests to \<^verbatim>\<open>sleep_with_jitter\<close>.
\<close>

datatype event =
    EvFetch
  | EvUpsert payload
  | EvBackoff int "int option"
  | EvSleep real real

text \<open>
  The surroundings of one pass through the loop body: what the fetch and the upsert do,
  and the clock reading of the \<^verbatim>\<open>mark_done\<close> or \<^verbatim>\<open>mark_failed\<close> that ends it.
\<close>

record attempt_env =
  fetch_outcome :: "exc + payload"
  upsert_outcome :: "exc option"
  now :: int

record job_state =
  attempt_no :: int
  attempts_total :: int
  conn :: queue
  events :: "event list"

text \<open>
  The body of the loop of \<^verbatim>\<open>process_one_permit\<close>. The linkage step
  \<^verbatim>\<open>update_current_ownership_period_from_transfers\<close> writes to the ownership tables
  only and its exceptions are swallowed, so it leaves no trace here. Errors of the
  queue table itself are not modelled.
\<close>

definition hard_fail :: "string \<Rightarrow> int \<Rightarrow> exc \<Rightarrow> job_state \<Rightarrow> job_state" where
  "hard_fail k t e s =
     s\<lparr>conn := mark_failed t k (attempts_total s)
                 (''Unhandled: '' @ exc_name e @ '': '' @ exc_msg e) None (conn s)\<rparr>"

definition process_iteration ::
  "(string \<Rightarrow> int option) \<Rightarrow> RetryPolicy \<Rightarrow> string \<Rightarrow> (int \<Rightarrow> attempt_env) \<Rightarrow> job_state
     \<Rightarrow> (job_state, job_state) loop_step" where
  "process_iteration py_int policy k env s0 =
     (let s = s0\<lparr>attempt_no := attempt_no s0 + 1, attempts_total := attempts_total s0 + 1,
                  events := events s0 @ [EvFetch]\<rparr>;
          e = env (attempt_no s);
          t = now e
      in case fetch_transfers_with_handling py_int k (fetch_outcome e) of
           Fetched p \<Rightarrow>
             (let s1 = s\<lparr>events := events s @ [EvUpsert p]\<rparr>
              in case upsert_outcome e of
                   None \<Rightarrow> Return (s1\<lparr>conn := mark_done t k (conn s1)\<rparr>)
                 | Some x \<Rightarrow> Return (hard_fail k t x s1))
         | RateLimitError retry_after_s msg \<Rightarrow>
             if attempts_total s \<ge> max_attempts policy
             then Return (s\<lparr>conn := mark_failed t k (attempts_total s)
                                      (''RateLimitError: '' @ msg) None (conn s)\<rparr>)
             else
               (let backoff = compute_backoff policy (attempt_no s) retry_after_s
                in Return (s\<lparr>conn := mark_failed t k (attempts_total s)
                                         (''RateLimitError: '' @ msg)
                                         (Some (py_int_of_float backoff)) (conn s),
                              events := events s @ [EvBackoff (attempt_no s) retry_after_s,
                                                    EvSleep (min backoff 10) (jitter policy)]\<rparr>))
         | TransientAPIError msg \<Rightarrow>
             if attempts_total s \<ge> max_attempts policy
             then Return (s\<lparr>conn := mark_failed t k (attempts_total s)
                                      (''TransientAPIError: '' @ msg) None (conn s)\<rparr>)
             else
               (let backoff = compute_backoff policy (attempt_no s) None
                in Return (s\<lparr>conn := mark_failed t k (attempts_total s)
                                         (''TransientAPIError: '' @ msg)
                                         (Some (py_int_of_float backoff)) (conn s),
                              events := events s @ [EvBackoff (attempt_no s) None]\<rparr>))
         | Reraised x \<Rightarrow> Return (hard_fail k t x s))"

text \<open>
  \<^verbatim>\<open>process_one_permit\<close>: the stored attempt count of the key (0 when there is no
  row), then the loop.
\<close>

definition stored_attempts :: "string \<Rightarrow> queue \<Rightarrow> int" where
  "stored_attempts k q =
     (case find (\<lambda>r. permit_key r = k) q of None \<Rightarrow> 0 | Some r \<Rightarrow> attempts r)"

definition initial_job :: "string \<Rightarrow> queue \<Rightarrow> job_state" where
  "initial_job k q =
     \<lparr>attempt_no = 0, attempts_total = stored_attempts k q, conn = q, events = []\<rparr>"

definition process_one_permit ::
  "(string \<Rightarrow> int option) \<Rightarrow> RetryPolicy \<Rightarrow> string \<Rightarrow> (int \<Rightarrow> attempt_env) \<Rightarrow> queue
     \<Rightarrow> job_state option" where
  "process_one_permit py_int policy k env q =
     while_true (process_iteration py_int policy k env) (initial_job k q)"


section \<open>Several workers claiming from one table\<close>

text \<open>
  Each worker process runs \<^verbatim>\<open>claim_one\<close> as two statements against the shared table:
  the \<^verbatim>\<open>SELECT\<close>, then the guarded \<^verbatim>\<open>UPDATE\<close> with its commit. Each statement is
  atomic; statements of different workers interleave in any order. A worker is its lock
  owner, its one clock reading and its lock timeout; its progress is a program counter.
\<close>

record claimant =
  c_owner :: string
  c_now :: int
  c_timeout :: int

datatype pc = Start | Selected string | Finished "string option"

definition claim_step :: "claimant \<Rightarrow> pc \<Rightarrow> queue \<Rightarrow> pc \<times> queue" where
  "claim_step c p q =
     (let t = c_now c; stale_before = t - c_timeout c
      in case p of
           Start \<Rightarrow>
             (case claim_select t stale_before q of
                None \<Rightarrow> (Finished None, q)
              | Some row \<Rightarrow> (Selected (permit_key row), q))
         | Selected k \<Rightarrow>
             (case claim_update t (c_owner c) stale_before k q of
                (q', rowcount) \<Rightarrow>
                  (Finished (if rowcount \<noteq> 1 then None else Some k), q'))
         | Finished r \<Rightarrow> (Finished r, q))"

text \<open>
  A schedule names, step by step, the worker that runs its next statement.
\<close>

fun run_schedule :: "claimant list \<Rightarrow> nat list \<Rightarrow> queue \<times> pc list \<Rightarrow> queue \<times> pc list" where
  "run_schedule cs [] cfg = cfg"
| "run_schedule cs (i # sched) (q, pcs) =
     (if i < length cs \<and> i < length pcs
      then (case claim_step (cs ! i) (pcs ! i) q of
              (p', q') \<Rightarrow> run_schedule cs sched (q', pcs[i := p']))
      else run_schedule cs sched (q, pcs))"

definition initial_pcs :: "claimant list \<Rightarrow> pc list" where
  "initial_pcs cs = replicate (length cs) Start"

text \<open>
  The workers are within one lease of each other when every worker's stale cut-off
  \<^verbatim>\<open>t - lock_timeout_s\<close> lies before every worker's clock reading.
\<close>

definition within_lease :: "claimant list \<Rightarrow> bool" where
  "within_lease cs = list_all (\<lambda>a. list_all (\<lambda>b. c_now b - c_timeout b < c_now a) cs) cs"

section \<open>The order of the claim as the specification words it\<close>

text \<open>
  The specification orders the eligible rows by tier, then by ascending
  \<^verbatim>\<open>next_retry_at\<close> with an absent value earliest, then by \<^verbatim>\<open>updated_at\<close>.
  \<open>spec_precedes a b\<close> says that \<open>a\<close> comes strictly before \<open>b\<close> in that order.
\<close>

definition spec_retry_before :: "int option \<Rightarrow> int option \<Rightarrow> bool" where
  "spec_retry_before a b =
     (case (a, b) of
        (None, Some y) \<Rightarrow> True
      | (Some x, Some y) \<Rightarrow> x < y
      | _ \<Rightarrow> False)"

definition spec_precedes :: "queue_row \<Rightarrow> queue_row \<Rightarrow> bool" where
  "spec_precedes a b =
     (status_rank (status a) < status_rank (status b)
      \<or> (status_rank (status a) = status_rank (status b)
          \<and> (spec_retry_before (next_retry_at a) (next_retry_at b)
              \<or> (next_retry_at a = next_retry_at b \<and> updated_at a < updated_at b))))"


section \<open>The daily state table and the selector (update\_transfers\_daily.py)\<close>

record fetch_state =
  fs_permit_key :: string
  last_fetched_at :: "int option"
  last_ajour_date :: "string option"
  last_status :: "string option"
  fs_last_error :: "string option"
  fs_next_retry_at :: "int option"

text \<open>
  Of \<^verbatim>\<open>ownership_history\<close> the selector reads \<^verbatim>\<open>permit_key\<close> and \<^verbatim>\<open>valid_from\<close>, a
  date as text.
\<close>

record ownership_row =
  oh_permit_key :: string
  valid_from :: "string option"

text \<open>
  \<^verbatim>\<open>SELECT DISTINCT\<close>: each value once, at its first occurrence in scan order (SQL
  fixes no order without \<^verbatim>\<open>ORDER BY\<close>; this is the order of discovery).
\<close>

fun distinct_first :: "'a list \<Rightarrow> 'a list" where
  "distinct_first [] = []"
| "distinct_first (x # xs) = x # distinct_first (filter (\<lambda>y. y \<noteq> x) xs)"

text \<open>SQLite's \<^verbatim>\<open>LIMIT n\<close>: a negative \<open>n\<close> is no limit.\<close>

definition sql_limit :: "int \<Rightarrow> 'a list \<Rightarrow> 'a list" where
  "sql_limit n xs = (if n < 0 then xs else take (nat n) xs)"

text \<open>
  \<^verbatim>\<open>permit_current pc LEFT JOIN transfers_fetch_state s\<close>: per key of
  \<^verbatim>\<open>permit_current\<close> the matching state rows, or one row of NULLs; each joined row is
  the key with \<^verbatim>\<open>s.last_fetched_at\<close> and \<^verbatim>\<open>s.next_retry_at\<close>.
\<close>

definition left_join_state ::
  "string list \<Rightarrow> fetch_state list \<Rightarrow> (string \<times> int option \<times> int option) list" where
  "left_join_state permit_current fs =
     concat (map (\<lambda>k. case filter (\<lambda>s. fs_permit_key s = k) fs of
                        [] \<Rightarrow> [(k, None, None)]
                      | ss \<Rightarrow> map (\<lambda>s. (k, last_fetched_at s, fs_next_retry_at s)) ss)
                 permit_current)"

definition stale_where :: "int \<Rightarrow> int \<Rightarrow> string \<times> int option \<times> int option \<Rightarrow> bool" where
  "stale_where stale_before t j =
     (case j of (k, fetched, retry) \<Rightarrow>
        (case fetched of None \<Rightarrow> True | Some f \<Rightarrow> f < stale_before)
        \<and> (case retry of None \<Rightarrow> True | Some n \<Rightarrow> n \<le> t))"

definition stale_order_key :: "string \<times> int option \<times> int option \<Rightarrow> int \<times> string" where
  "stale_order_key j = (case j of (k, fetched, retry) \<Rightarrow> (coalesce0 fetched, k))"

definition stale_sorted :: "int \<Rightarrow> int \<Rightarrow> string list \<Rightarrow> fetch_state list \<Rightarrow> string list" where
  "stale_sorted stale_before t permit_current fs =
     map fst (sort_key stale_order_key
                (filter (stale_where stale_before t) (left_join_state permit_current fs)))"

definition recent_keys_of :: "string \<Rightarrow> ownership_row list \<Rightarrow> string list" where
  "recent_keys_of changed_since_date oh =
     distinct_first
       (map oh_permit_key
          (filter (\<lambda>r. case valid_from r of None \<Rightarrow> False | Some d \<Rightarrow> changed_since_date \<le> d)
             oh))"

text \<open>
  The merging loop of \<^verbatim>\<open>pick_today_permits\<close>: \<^verbatim>\<open>out\<close> and \<^verbatim>\<open>seen\<close> are its two
  variables; the test \<^verbatim>\<open>len(out) >= limit\<close> follows the append and breaks the loop.
\<close>

fun combine_loop :: "int \<Rightarrow> string list \<Rightarrow> string list \<Rightarrow> string set \<Rightarrow> string list" where
  "combine_loop limit [] out seen = out"
| "combine_loop limit (k # ks) out seen =
     (let out' = (if k \<notin> seen then out @ [k] else out);
          seen' = (if k \<notin> seen then insert k seen else seen)
      in if int (length out') \<ge> limit then out' else combine_loop limit ks out' seen')"

text \<open>
  \<^verbatim>\<open>pick_today_permits\<close>. \<open>strftime\<close> stands for
  \<^verbatim>\<open>time.strftime("%Y-%m-%d", time.gmtime(_))\<close> and \<open>t\<close> for the clock reading; the
  three tables are arguments.
\<close>

definition pick_today_permits ::
  "(int \<Rightarrow> string) \<Rightarrow> int \<Rightarrow> ownership_row list \<Rightarrow> string list \<Rightarrow> fetch_state list
     \<Rightarrow> int \<Rightarrow> int \<Rightarrow> int \<Rightarrow> string list" where
  "pick_today_permits strftime t oh permit_current fs changed_since_days stale_after_days limit =
     (let changed_since_date = strftime (t - changed_since_days * 86400);
          stale_before = t - stale_after_days * 86400;
          recent_keys = recent_keys_of changed_since_date oh;
          stale_keys = sql_limit limit (stale_sorted stale_before t permit_current fs)
      in combine_loop limit (recent_keys @ stale_keys) [] {})"

section \<open>The daily run\<close>

text \<open>
  \<^verbatim>\<open>mark_state\<close>: insert the row, or on a key conflict overwrite every column but the
  key. The error text is \<^verbatim>\<open>(err or "")[:2000] if err else None\<close>.
\<close>

definition state_error :: "string option \<Rightarrow> string option" where
  "state_error err =
     (case err of None \<Rightarrow> None | Some e \<Rightarrow> if e = [] then None else Some (take 2000 e))"

definition mark_state ::
  "int \<Rightarrow> string \<Rightarrow> string \<Rightarrow> string option \<Rightarrow> string option \<Rightarrow> int option
     \<Rightarrow> fetch_state list \<Rightarrow> fetch_state list" where
  "mark_state t k status_label ajour_date err retry_at fs =
     (let row = \<lparr>fs_permit_key = k, last_fetched_at = Some t, last_ajour_date = ajour_date,
                 last_status = Some status_label, fs_last_error = state_error err,
                 fs_next_retry_at = retry_at\<rparr>
      in if k \<in> set (map fs_permit_key fs)
         then map (\<lambda>r. if fs_permit_key r = k then row else r) fs
         else fs @ [row])"

text \<open>
  The surroundings of one key of the pass: what the fetch does, what the upsert of the
  fetched data and the upsert of the empty 404 payload do, and the clock readings of the
  retry time and of \<^verbatim>\<open>mark_state\<close>.
\<close>

record daily_env =
  d_fetch_outcome :: "exc + payload"
  d_upsert_outcome :: "exc option"
  d_upsert_404_outcome :: "exc option"
  d_now_retry :: int
  d_now_mark :: int

record daily_state =
  state_table :: "fetch_state list"
  ok :: int
  rate_limited :: int
  failed :: int
  upserted :: "(string \<times> payload) list"

text \<open>\<^verbatim>\<open>f"{status_code}"\<close> of an optional status code.\<close>

definition str_opt_int :: "int option \<Rightarrow> string" where
  "str_opt_int v = (case v of None \<Rightarrow> ''None'' | Some i \<Rightarrow> str_int i)"

text \<open>
  The three \<^verbatim>\<open>except\<close> clauses of the loop body, in their order: \<^verbatim>\<open>HTTPError\<close>,
  \<^verbatim>\<open>Timeout\<close>, any other \<^verbatim>\<open>Exception\<close>. An exception raised inside a handler (the
  upsert of the 404 branch) leaves the run: it is the \<open>Inl\<close> result.
\<close>

definition daily_failed :: "int \<Rightarrow> string \<Rightarrow> string \<Rightarrow> daily_state \<Rightarrow> daily_state" where
  "daily_failed t k err s =
     s\<lparr>state_table := mark_state t k ''failed'' None (Some err) None (state_table s),
       failed := failed s + 1\<rparr>"

definition daily_handle ::
  "(string \<Rightarrow> int option) \<Rightarrow> daily_env \<Rightarrow> string \<Rightarrow> exc \<Rightarrow> daily_state \<Rightarrow> exc + daily_state" where
  "daily_handle py_int e k x s =
     (case x of
        HTTPError resp n m \<Rightarrow>
          (let status = map_option status_code resp
           in if status = Some 404 then
                (case d_upsert_404_outcome e of
                   Some y \<Rightarrow> Inl y
                 | None \<Rightarrow>
                     Inr (s\<lparr>state_table := mark_state (d_now_mark e) k ''ok_404_no_transfers''
                                               None None None (state_table s),
                            ok := ok s + 1,
                            upserted := upserted s @ [(k, \<lparr>ajourDate = None, transfers = []\<rparr>)]\<rparr>))
              else if status = Some 429 then
                (let backoff = (case parse_retry_after py_int resp of Some ra \<Rightarrow> ra | None \<Rightarrow> 30);
                     retry_at = d_now_retry e + backoff
                 in Inr (s\<lparr>state_table := mark_state (d_now_mark e) k ''rate_limited'' None
                                              (Some (''HTTP 429 for '' @ k)) (Some retry_at)
                                              (state_table s),
                           rate_limited := rate_limited s + 1\<rparr>))
              else Inr (daily_failed (d_now_mark e) k
                          (''HTTPError '' @ str_opt_int status @ '': '' @ m) s))
      | Timeout n m \<Rightarrow> Inr (daily_failed (d_now_mark e) k (''Timeout: '' @ m) s)
      | ConnectionError n m \<Rightarrow> Inr (daily_failed (d_now_mark e) k (n @ '': '' @ m) s)
      | OtherException n m \<Rightarrow> Inr (daily_failed (d_now_mark e) k (n @ '': '' @ m) s))"

definition daily_item ::
  "(string \<Rightarrow> int option) \<Rightarrow> daily_env \<Rightarrow> string \<Rightarrow> daily_state \<Rightarrow> exc + daily_state" where
  "daily_item py_int e k s =
     (case d_fetch_outcome e of
        Inl x \<Rightarrow> daily_handle py_int e k x s
      | Inr data \<Rightarrow>
          (case d_upsert_outcome e of
             Some x \<Rightarrow> daily_handle py_int e k x s
           | None \<Rightarrow>
               Inr (s\<lparr>state_table := mark_state (d_now_mark e) k ''ok'' (ajourDate data)
                                         None None (state_table s),
                      ok := ok s + 1,
                      upserted := upserted s @ [(k, data)]\<rparr>)))"

text \<open>The \<^verbatim>\<open>for i, k in enumerate(keys, start=1)\<close> loop; \<open>env i\<close> surrounds the \<open>i\<close>-th key.\<close>

fun daily_loop ::
  "(string \<Rightarrow> int option) \<Rightarrow> (nat \<Rightarrow> daily_env) \<Rightarrow> nat \<Rightarrow> string list \<Rightarrow> daily_state
     \<Rightarrow> exc + daily_state" where
  "daily_loop py_int env i [] s = Inr s"
| "daily_loop py_int env i (k # ks) s =
     (case daily_item py_int (env i) k s of
        Inl x \<Rightarrow> Inl x
      | Inr s' \<Rightarrow> daily_loop py_int env (Suc i) ks s')"

text \<open>
  How \<^verbatim>\<open>run_daily\<close> ends: it returns, it raises \<^verbatim>\<open>SystemExit(2)\<close> after the pass, or
  an exception left the loop.
\<close>

datatype run_result = Completed daily_state | SystemExit int daily_state | Crashed exc

text \<open>
  \<^verbatim>\<open>run_daily\<close>, on the three tables; pacing, printing and the HTTP timeout change
  nothing that is modelled. \<open>t\<close> is the clock reading of the selector.
\<close>

definition run_daily ::
  "(string \<Rightarrow> int option) \<Rightarrow> (int \<Rightarrow> string) \<Rightarrow> int \<Rightarrow> (nat \<Rightarrow> daily_env)
     \<Rightarrow> ownership_row list \<Rightarrow> string list \<Rightarrow> fetch_state list
     \<Rightarrow> int \<Rightarrow> int \<Rightarrow> int \<Rightarrow> int \<Rightarrow> run_result" where
  "run_daily py_int strftime t env oh permit_current fs
     limit changed_since_days stale_after_days max_rate_limited =
     (let keys = pick_today_permits strftime t oh permit_current fs
                   changed_since_days stale_after_days limit
      in case daily_loop py_int env 1 keys
                \<lparr>state_table = fs, ok = 0, rate_limited = 0, failed = 0, upserted = []\<rparr> of
           Inl x \<Rightarrow> Crashed x
         | Inr s \<Rightarrow> if rate_limited s > max_rate_limited then SystemExit 2 s else Completed s)"

text \<open>
  The parsed command line and the script's entry point: \<^verbatim>\<open>run_daily\<close> is called with
  five of the six arguments, so \<^verbatim>\<open>max_rate_limited\<close> keeps its default, 50.
\<close>

record daily_args =
  arg_limit :: int
  arg_pace :: real
  arg_timeout :: int
  arg_changed_since_days :: int
  arg_stale_after_days :: int
  arg_max_rate_limited :: int

definition daily_main ::
  "(string \<Rightarrow> int option) \<Rightarrow> (int \<Rightarrow> string) \<Rightarrow> int \<Rightarrow> (nat \<Rightarrow> daily_env)
     \<Rightarrow> ownership_row list \<Rightarrow> string list \<Rightarrow> fetch_state list \<Rightarrow> daily_args \<Rightarrow> run_result" where
  "daily_main py_int strftime t env oh permit_current fs args =
     run_daily py_int strftime t env oh permit_current fs
       (arg_limit args) (arg_changed_since_days args) (arg_stale_after_days args) 50"

section \<open>Example data\<close>

definition example_row :: "string \<Rightarrow> status \<Rightarrow> int \<Rightarrow> int option \<Rightarrow> int option \<Rightarrow> int \<Rightarrow> queue_row" where
  "example_row k st n retry locked upd =
     \<lparr>permit_key = k, status = st, attempts = n, next_retry_at = retry,
      locked_at = locked, lock_owner = None, last_error = None, updated_at = upd\<rparr>"

section \<open>Vocabulary of the properties\<close>

text \<open>The row of a key, as \<^verbatim>\<open>SELECT ... WHERE permit_key=?\<close> with \<^verbatim>\<open>fetchone\<close> reads it.\<close>

definition row_of :: "string \<Rightarrow> queue \<Rightarrow> queue_row option" where
  "row_of k q = find (\<lambda>r. permit_key r = k) q"


text \<open>
  The classes of remote failure: transient is a timeout, a connection error or an HTTP
  status from 500 to 599; rate-limited is HTTP 429; not found is HTTP 404.
\<close>

definition http_status :: "exc \<Rightarrow> int option" where
  "http_status x =
     (case x of HTTPError resp n m \<Rightarrow> map_option status_code resp | _ \<Rightarrow> None)"



definition not_found_exc :: "exc \<Rightarrow> bool" where
  "not_found_exc x = (http_status x = Some 404)"

text \<open>The state row of a key in the daily table.\<close>

definition state_of :: "string \<Rightarrow> fetch_state list \<Rightarrow> fetch_state option" where
  "state_of k fs = find (\<lambda>r. fs_permit_key r = k) fs"

text \<open>Surroundings in which every fetch raises the same exception.\<close>

definition always_raises :: "exc \<Rightarrow> int \<Rightarrow> int \<Rightarrow> attempt_env" where
  "always_raises x t n = \<lparr>fetch_outcome = Inl x, upsert_outcome = None, now = t\<rparr>"

definition daily_raises :: "exc \<Rightarrow> int \<Rightarrow> nat \<Rightarrow> daily_env" where
  "daily_raises x t i =
     \<lparr>d_fetch_outcome = Inl x, d_upsert_outcome = None, d_upsert_404_outcome = None,
      d_now_retry = t, d_now_mark = t\<rparr>"

definition no_int :: "string \<Rightarrow> int option" where
  "no_int s = None"

definition empty_daily :: "fetch_state list \<Rightarrow> daily_state" where
  "empty_daily fs = \<lparr>state_table = fs, ok = 0, rate_limited = 0, failed = 0, upserted = []\<rparr>"


text \<open>Example exceptions of the HTTP client.\<close>

definition http_error :: "int \<Rightarrow> string option \<Rightarrow> exc" where
  "http_error code retry_after =
     HTTPError (Some \<lparr>status_code = code, retry_after_header = retry_after\<rparr>)
       ''HTTPError'' ''HTTP error''"


text \<open>
  An example table at clock reading 10000 with a lock timeout of 1800: a stale lease, a
  failed row whose retry is due, a pending row, a permanently failed row and a fresh
  lease.
\<close>

definition example_queue :: queue where
  "example_queue =
     [example_row ''a'' InProgress 1 None (Some 1000) 1000,
      example_row ''b'' Failed 2 (Some 9000) None 9000,
      example_row ''c'' Pending 0 None None 9500,
      example_row ''d'' Failed 12 None None 500,
      example_row ''e'' InProgress 0 None (Some 9000) 9000]"

definition worker :: "string \<Rightarrow> int \<Rightarrow> int \<Rightarrow> claimant" where
  "worker name t timeout = \<lparr>c_owner = name, c_now = t, c_timeout = timeout\<rparr>"

text \<open>
  A row whose lease one of the workers holds, and the invariant of a run of workers:
  every key reported as claimed has a row under such a lease, and is reported by one
  worker only.
\<close>

definition lease_held :: "claimant list \<Rightarrow> queue_row \<Rightarrow> bool" where
  "lease_held cs r = (status r = InProgress \<and> (\<exists>c \<in> set cs. locked_at r = Some (c_now c)))"

definition claims_inv :: "claimant list \<Rightarrow> queue \<times> pc list \<Rightarrow> bool" where
  "claims_inv cs cfg =
     (case cfg of (q, pcs) \<Rightarrow>
        length pcs = length cs \<and> wf_queue q
        \<and> (\<forall>i < length cs. \<forall>k. pcs ! i = Finished (Some k) \<longrightarrow>
              (\<exists>r \<in> set q. permit_key r = k \<and> lease_held cs r)
              \<and> (\<forall>j < length cs. pcs ! j = Finished (Some k) \<longrightarrow> j = i)))"

text \<open>
  Example tables of the daily run at clock reading 1700000000, with the cut-off date
  2024-01-01: ownership changes of \<open>B\<close> and then \<open>A\<close> after the cut-off and older ones;
  \<open>A\<close> and \<open>B\<close> checked lately, \<open>C\<close> and \<open>D\<close> long ago (\<open>C\<close> first), \<open>E\<close> long ago but
  in cooldown.
\<close>

definition example_date :: "int \<Rightarrow> string" where
  "example_date t = ''2024-01-01''"

definition example_changes :: "ownership_row list" where
  "example_changes =
     [\<lparr>oh_permit_key = ''B'', valid_from = Some ''2024-01-06''\<rparr>,
      \<lparr>oh_permit_key = ''A'', valid_from = Some ''2024-01-05''\<rparr>,
      \<lparr>oh_permit_key = ''B'', valid_from = Some ''2024-01-02''\<rparr>,
      \<lparr>oh_permit_key = ''D'', valid_from = Some ''2023-12-30''\<rparr>]"

definition example_state :: "string \<Rightarrow> int option \<Rightarrow> int option \<Rightarrow> fetch_state" where
  "example_state k fetched retry =
     \<lparr>fs_permit_key = k, last_fetched_at = fetched, last_ajour_date = None,
      last_status = Some ''ok'', fs_last_error = None, fs_next_retry_at = retry\<rparr>"

definition example_states :: "fetch_state list" where
  "example_states =
     [example_state ''A'' (Some 1699999000) None,
      example_state ''B'' (Some 1699999000) None,
      example_state ''C'' (Some 1000) None,
      example_state ''D'' (Some 2000) None,
      example_state ''E'' (Some 500) (Some 1700000500)]"

definition example_args :: "int \<Rightarrow> int \<Rightarrow> daily_args" where
  "example_args limit max_rl =
     \<lparr>arg_limit = limit, arg_pace = 1 / 5, arg_timeout = 60, arg_changed_since_days = 7,
      arg_stale_after_days = 30, arg_max_rate_limited = max_rl\<rparr>"

text \<open>
  A history of the queue under a server that answers HTTP 429 with the header
  \<^verbatim>\<open>Retry-After: -2000000000\<close>. The keys \<open>a\<close> and \<open>b\<close> are seeded; worker \<open>w1\<close>
  claims \<open>a\<close> and dies; worker \<open>w2\<close> claims \<open>b\<close>, is rate-limited with that header,
  so that the retry time \<open>now + int(min(float(-2000000000), 120.0))\<close> of \<open>b\<close> lies
  before the epoch, claims \<open>b\<close> again at once, and dies too.
\<close>

definition hostile_retry_after :: "string \<Rightarrow> int option" where
  "hostile_retry_after s = (if s = ''-2000000000'' then Some (- 2000000000) else None)"

definition example_trace :: queue where
  "example_trace =
     (let q0 = fst (seed_queue [''a'', ''b''] None 1700000000 []);
          q1 = fst (claim_one ''w1'' 1800 1700000010 q0);
          q2 = fst (claim_one ''w2'' 1800 1700000020 q1);
          q3 = (case process_one_permit hostile_retry_after default_policy ''b''
                       (always_raises (http_error 429 (Some ''-2000000000'')) 1700000030) q2 of
                  Some s \<Rightarrow> conn s
                | None \<Rightarrow> q2);
          q4 = fst (claim_one ''w2'' 1800 1700000040 q3)
      in q4)"

section \<open>The backoff schedule\<close>





section \<open>Seeding the queue\<close>

lemma set_distinct_first: "set (distinct_first xs) = set xs"
  by (induction xs rule: distinct_first.induct) auto

lemma distinct_distinct_first: "distinct (distinct_first xs)"
  by (induction xs rule: distinct_first.induct) (auto simp: set_distinct_first)






section \<open>One job of the worker\<close>

lemma process_one_permit_first:
  "process_one_permit py_int policy k env q =
     (case process_iteration py_int policy k env (initial_job k q) of
        Return r \<Rightarrow> Some r
      | Continue s' \<Rightarrow> while_true (process_iteration py_int policy k env) s')"
  unfolding process_one_permit_def by (subst while_true.simps) simp






section \<open>Recording failures in the queue\<close>



lemma process_fetched:
  assumes "fetch_transfers_with_handling py_int k (fetch_outcome (env 1)) = Fetched p"
    and "upsert_outcome (env 1) = None"
  shows "process_one_permit py_int policy k env q =
     Some \<lparr>attempt_no = 1, attempts_total = stored_attempts k q + 1,
           conn = mark_done (now (env 1)) k q, events = [EvFetch, EvUpsert p]\<rparr>"
  using assms
  by (simp add: process_one_permit_first process_iteration_def initial_job_def Let_def)


lemma queue_keys_mark_done: "queue_keys (mark_done t k q) = queue_keys q"
  by (simp add: mark_done_def queue_keys_def comp_def)


lemma row_of_mark_done:
  "k \<in> set (queue_keys q) \<Longrightarrow>
     \<exists>r. row_of k (mark_done t k q) = Some r \<and> status r = Done"
  by (induction q) (auto simp: row_of_def mark_done_def queue_keys_def)




lemma handled_not_found:
  "not_found_exc x \<Longrightarrow>
     fetch_transfers_with_handling py_int k (Inl x)
       = Fetched \<lparr>ajourDate = None, transfers = []\<rparr>"
  by (cases x)
    (auto simp: not_found_exc_def http_status_def fetch_transfers_with_handling_def Let_def
      split: option.splits)





section \<open>Not found, and transient failures\<close>

lemma state_of_mark_state:
  "state_of k (mark_state t k lbl aj err retry fs)
     = Some \<lparr>fs_permit_key = k, last_fetched_at = Some t, last_ajour_date = aj,
             last_status = Some lbl, fs_last_error = state_error err,
             fs_next_retry_at = retry\<rparr>"
proof (cases "k \<in> set (map fs_permit_key fs)")
  case True
  then show ?thesis
    by (induction fs) (auto simp: state_of_def mark_state_def Let_def)
next
  case False
  then have "find (\<lambda>r. fs_permit_key r = k) (fs @ [r]) = (if fs_permit_key r = k then Some r else None)" for r
    by (induction fs) auto
  with False show ?thesis
    by (simp add: state_of_def mark_state_def Let_def)
qed

text \<open>
  Claim C8. A fetch that ends in HTTP 404 counts as a success with no records, provided
  the upsert of the empty payload itself does not raise. In the backfill worker the
  empty payload \<^verbatim>\<open>{"ajourDate": None, "transfers": []}\<close> is handed to the upsert and the
  row of the key ends \<^verbatim>\<open>done\<close>; in the daily run the same payload is upserted, the
  state row of the key gets the label \<^verbatim>\<open>ok_404_no_transfers\<close>, the success counter
  grows and the failure counters do not.
\<close>

theorem not_found_is_success:
  "not_found_exc x \<Longrightarrow>
     (k \<in> set (queue_keys q) \<and> fetch_outcome (env 1) = Inl x \<and> upsert_outcome (env 1) = None
        \<longrightarrow> (\<exists>s r. process_one_permit py_int policy k env q = Some s
                   \<and> row_of k (conn s) = Some r \<and> status r = Done
                   \<and> events s = [EvFetch, EvUpsert \<lparr>ajourDate = None, transfers = []\<rparr>]))
     \<and> (d_fetch_outcome e = Inl x \<and> d_upsert_404_outcome e = None
        \<longrightarrow> (\<exists>s' r. daily_item py_int e k s = Inr s'
                    \<and> state_of k (state_table s') = Some r
                    \<and> last_status r = Some ''ok_404_no_transfers''
                    \<and> ok s' = ok s + 1 \<and> failed s' = failed s
                    \<and> rate_limited s' = rate_limited s
                    \<and> upserted s' = upserted s @ [(k, \<lparr>ajourDate = None, transfers = []\<rparr>)]))"
proof -
  assume nf: "not_found_exc x"
  have backfill: "\<exists>s r. process_one_permit py_int policy k env q = Some s
                   \<and> row_of k (conn s) = Some r \<and> status r = Done
                   \<and> events s = [EvFetch, EvUpsert \<lparr>ajourDate = None, transfers = []\<rparr>]"
    if "k \<in> set (queue_keys q)" and "fetch_outcome (env 1) = Inl x"
      and "upsert_outcome (env 1) = None"
  proof -
    have h: "fetch_transfers_with_handling py_int k (fetch_outcome (env 1))
               = Fetched \<lparr>ajourDate = None, transfers = []\<rparr>"
      using handled_not_found [OF nf] that(2) by simp
    from row_of_mark_done [OF that(1), of "now (env 1)"]
    show ?thesis
      by (auto simp: process_fetched h that(3))
  qed
  have daily: "\<exists>s' r. daily_item py_int e k s = Inr s'
                    \<and> state_of k (state_table s') = Some r
                    \<and> last_status r = Some ''ok_404_no_transfers''
                    \<and> ok s' = ok s + 1 \<and> failed s' = failed s
                    \<and> rate_limited s' = rate_limited s
                    \<and> upserted s' = upserted s @ [(k, \<lparr>ajourDate = None, transfers = []\<rparr>)]"
    if "d_fetch_outcome e = Inl x" and "d_upsert_404_outcome e = None"
    using nf that
    by (cases x)
      (auto simp: daily_item_def daily_handle_def not_found_exc_def http_status_def
        state_of_mark_state Let_def)
  from backfill daily show ?thesis
    by blast
qed

theorem not_found_is_success_witness:
  "not_found_exc (http_error 404 None)
   \<and> (\<exists>s r. process_one_permit no_int default_policy ''k''
                (always_raises (http_error 404 None) 100)
                [example_row ''k'' InProgress 1 (Some 80) (Some 90) 90] = Some s
            \<and> row_of ''k'' (conn s) = Some r \<and> status r = Done
            \<and> events s = [EvFetch, EvUpsert \<lparr>ajourDate = None, transfers = []\<rparr>])
   \<and> (\<exists>s' r. daily_item no_int (daily_raises (http_error 404 None) 100 1) ''k''
                 (empty_daily []) = Inr s'
             \<and> state_of ''k'' (state_table s') = Some r
             \<and> last_status r = Some ''ok_404_no_transfers''
             \<and> failed s' = 0)"
proof -
  have nf: "not_found_exc (http_error 404 None)"
    by (simp add: not_found_exc_def http_status_def http_error_def)
  have k: "''k'' \<in> set (queue_keys [example_row ''k'' InProgress 1 (Some 80) (Some 90) 90])"
    by (simp add: queue_keys_def example_row_def)
  have f: "fetch_outcome (always_raises (http_error 404 None) 100 1) = Inl (http_error 404 None)"
      "upsert_outcome (always_raises (http_error 404 None) 100 1) = None"
    by (simp_all add: always_raises_def)
  have d: "d_fetch_outcome (daily_raises (http_error 404 None) 100 1) = Inl (http_error 404 None)"
      "d_upsert_404_outcome (daily_raises (http_error 404 None) 100 1) = None"
    by (simp_all add: daily_raises_def)
  have z: "failed (empty_daily []) = 0"
    by (simp add: empty_daily_def)
  from not_found_is_success [OF nf, where env = "always_raises (http_error 404 None) 100"
      and e = "daily_raises (http_error 404 None) 100 1" and k = "''k''"
      and q = "[example_row ''k'' InProgress 1 (Some 80) (Some 90) 90]"
      and s = "empty_daily []" and py_int = no_int and policy = default_policy]
    nf k f d z
  show ?thesis
    by (metis (no_types, lifting))
qed




section \<open>The claim, run alone\<close>

text \<open>The order of the keys, spelled out.\<close>

lemma claim_order_key_le:
  "claim_order_key r \<le> claim_order_key x \<longleftrightarrow>
     status_rank (status r) < status_rank (status x)
     \<or> (status_rank (status r) = status_rank (status x)
         \<and> (coalesce0 (next_retry_at r) < coalesce0 (next_retry_at x)
             \<or> (coalesce0 (next_retry_at r) = coalesce0 (next_retry_at x)
                 \<and> updated_at r \<le> updated_at x)))"
  by (auto simp: claim_order_key_def less_eq_prod_def less_prod_def)

lemma least_row_mem: "least_row r rs \<in> set (r # rs)"
  unfolding least_row_def
  by (induction rs arbitrary: r) (auto split: if_splits)

lemma least_row_bounds:
  "claim_order_key (least_row r rs) \<le> claim_order_key r
   \<and> (\<forall>x \<in> set rs. claim_order_key (least_row r rs) \<le> claim_order_key x)"
  unfolding least_row_def
proof (induction rs arbitrary: r)
  case Nil
  show ?case by simp
next
  case (Cons a rs)
  let ?F = "\<lambda>x best. if claim_order_key x < claim_order_key best then x else best"
  define b where "b = ?F a r"
  have fb: "fold ?F (a # rs) r = fold ?F rs b"
    by (simp add: b_def)
  have b1: "claim_order_key b \<le> claim_order_key r" and b2: "claim_order_key b \<le> claim_order_key a"
    by (auto simp: b_def)
  from Cons.IH [of b]
  have ih1: "claim_order_key (fold ?F rs b) \<le> claim_order_key b"
    and ih2: "\<forall>x \<in> set rs. claim_order_key (fold ?F rs b) \<le> claim_order_key x"
    by blast+
  show ?case
    unfolding fb using ih1 ih2 b1 b2 by (auto intro: order_trans)
qed

lemma least_row_le:
  "x \<in> set (r # rs) \<Longrightarrow> claim_order_key (least_row r rs) \<le> claim_order_key x"
  using least_row_bounds [of r rs] by auto

lemma claim_select_None:
  "claim_select t sb q = None \<longleftrightarrow> (\<forall>r \<in> set q. \<not> eligible t sb r)"
proof -
  have "claim_select t sb q = None \<longleftrightarrow> filter (eligible t sb) q = []"
    by (simp add: claim_select_def split: list.splits)
  then show ?thesis
    by (simp add: filter_empty_conv)
qed

lemma claim_select_Some:
  assumes "claim_select t sb q = Some r"
  shows "r \<in> set q \<and> eligible t sb r
         \<and> (\<forall>x \<in> set q. eligible t sb x \<longrightarrow> claim_order_key r \<le> claim_order_key x)"
proof -
  from assms obtain a as where f: "filter (eligible t sb) q = a # as" and r: "r = least_row a as"
    by (auto simp: claim_select_def split: list.splits)
  have "r \<in> set (filter (eligible t sb) q)"
    unfolding f r by (rule least_row_mem)
  moreover have "claim_order_key r \<le> claim_order_key x" if "x \<in> set q" "eligible t sb x" for x
  proof -
    from that have "x \<in> set (a # as)" unfolding f [symmetric] by simp
    then show ?thesis unfolding r by (rule least_row_le)
  qed
  ultimately show ?thesis by auto
qed

lemma unique_key_filter:
  "distinct (map permit_key q) \<Longrightarrow> r \<in> set q \<Longrightarrow> P r \<Longrightarrow>
     filter (\<lambda>x. permit_key x = permit_key r \<and> P x) q = [r]"
proof (induction q)
  case Nil
  then show ?case by simp
next
  case (Cons a q)
  show ?case
  proof (cases "a = r")
    case True
    with Cons.prems have "permit_key r \<notin> permit_key ` set q" by simp
    then have "\<forall>x \<in> set q. permit_key x \<noteq> permit_key r" by (metis imageI)
    then have "filter (\<lambda>x. permit_key x = permit_key r \<and> P x) q = []"
      by (auto simp: filter_empty_conv)
    with True Cons.prems show ?thesis by simp
  next
    case False
    with Cons.prems have "r \<in> set q" "permit_key a \<noteq> permit_key r" by auto
    with Cons show ?thesis by simp
  qed
qed

lemma claim_guard_eq: "claim_guard t sb k = (\<lambda>r. permit_key r = k \<and> eligible t sb r)"
  by (rule ext) (simp add: claim_guard_def)

lemma claim_update_wins:
  assumes "wf_queue q" "r \<in> set q" "eligible t sb r"
  shows "snd (claim_update t owner sb (permit_key r) q) = 1"
  using unique_key_filter [of q r "eligible t sb"] assms
  by (simp add: claim_update_def claim_guard_eq wf_queue_def queue_keys_def)

lemma row_of_claim_update:
  assumes "wf_queue q" "r \<in> set q" "eligible t sb r"
  shows "row_of (permit_key r) (fst (claim_update t owner sb (permit_key r) q))
           = Some (r\<lparr>status := InProgress, locked_at := Some t,
                      lock_owner := Some owner, updated_at := t\<rparr>)"
  using assms(2,1)
proof (induction q)
  case Nil
  then show ?case by simp
next
  case (Cons a q)
  show ?case
  proof (cases "a = r")
    case True
    with assms(3) show ?thesis
      by (simp add: row_of_def claim_update_def claim_guard_def)
  next
    case False
    with Cons.prems have "r \<in> set q" "permit_key a \<noteq> permit_key r" "wf_queue q"
      by (auto simp: wf_queue_def queue_keys_def)
    with Cons.IH show ?thesis
      by (simp add: row_of_def claim_update_def claim_guard_def)
  qed
qed

lemma unique_row:
  "wf_queue q \<Longrightarrow> r \<in> set q \<Longrightarrow> r' \<in> set q \<Longrightarrow> permit_key r = permit_key r' \<Longrightarrow> r = r'"
  unfolding wf_queue_def queue_keys_def
  by (metis distinct_map inj_on_def)

text \<open>
  Claim C2, as the code has it. On a table with unique keys, \<^verbatim>\<open>claim_one\<close> run alone
  returns no key and leaves the table as it is when no row is eligible; otherwise it
  returns the key of an eligible row whose order key is least among the eligible rows,
  and sets that row to \<^verbatim>\<open>in_progress\<close> under the caller's lease. The key of a row that
  is not eligible is never returned. A row is eligible iff it is pending, or failed with
  a retry time that is not NULL and not after \<open>t\<close>, or in progress with no lock time or
  a lock time not after \<open>t - lock_timeout_s\<close>; so a lease newer than the timeout and a
  failed row without retry time are never claimed. The order key is the tier (pending 0,
  failed 1, in progress 2), then \<^verbatim>\<open>next_retry_at\<close> with NULL read as 0, then
  \<^verbatim>\<open>updated_at\<close>.
\<close>

theorem claim_one_contract:
  "wf_queue q \<Longrightarrow>
     ((\<forall>r \<in> set q. \<not> eligible t (t - lock_timeout_s) r)
        \<longrightarrow> claim_one owner lock_timeout_s t q = (q, None))
     \<and> ((\<exists>r \<in> set q. eligible t (t - lock_timeout_s) r)
        \<longrightarrow> (\<exists>r \<in> set q.
               eligible t (t - lock_timeout_s) r
               \<and> (\<forall>x \<in> set q. eligible t (t - lock_timeout_s) x
                     \<longrightarrow> claim_order_key r \<le> claim_order_key x)
               \<and> snd (claim_one owner lock_timeout_s t q) = Some (permit_key r)
               \<and> row_of (permit_key r) (fst (claim_one owner lock_timeout_s t q))
                   = Some (r\<lparr>status := InProgress, locked_at := Some t,
                              lock_owner := Some owner, updated_at := t\<rparr>)))
     \<and> (\<forall>r \<in> set q. \<not> eligible t (t - lock_timeout_s) r
           \<longrightarrow> snd (claim_one owner lock_timeout_s t q) \<noteq> Some (permit_key r))
     \<and> (\<forall>r. eligible t (t - lock_timeout_s) r \<longleftrightarrow>
           status r = Pending
           \<or> (status r = Failed \<and> (\<exists>n. next_retry_at r = Some n \<and> n \<le> t))
           \<or> (status r = InProgress
               \<and> (locked_at r = None \<or> (\<exists>l. locked_at r = Some l \<and> l \<le> t - lock_timeout_s))))
     \<and> (\<forall>r. claim_order_key r
             = ((case status r of Pending \<Rightarrow> 0 | Failed \<Rightarrow> 1 | InProgress \<Rightarrow> 2 | Done \<Rightarrow> 9),
                (case next_retry_at r of None \<Rightarrow> 0 | Some n \<Rightarrow> n), updated_at r))
     \<and> (\<forall>r x. claim_order_key r \<le> claim_order_key x \<longleftrightarrow>
           status_rank (status r) < status_rank (status x)
           \<or> (status_rank (status r) = status_rank (status x)
               \<and> (coalesce0 (next_retry_at r) < coalesce0 (next_retry_at x)
                   \<or> (coalesce0 (next_retry_at r) = coalesce0 (next_retry_at x)
                       \<and> updated_at r \<le> updated_at x))))"
proof -
  assume wf: "wf_queue q"
  let ?sb = "t - lock_timeout_s"
  have none: "claim_one owner lock_timeout_s t q = (q, None)"
    if "\<forall>r \<in> set q. \<not> eligible t ?sb r"
    using that by (simp add: claim_one_def claim_select_None [symmetric])
  have some: "\<exists>r \<in> set q.
               eligible t ?sb r
               \<and> (\<forall>x \<in> set q. eligible t ?sb x \<longrightarrow> claim_order_key r \<le> claim_order_key x)
               \<and> snd (claim_one owner lock_timeout_s t q) = Some (permit_key r)
               \<and> row_of (permit_key r) (fst (claim_one owner lock_timeout_s t q))
                   = Some (r\<lparr>status := InProgress, locked_at := Some t,
                              lock_owner := Some owner, updated_at := t\<rparr>)"
    if "\<exists>r \<in> set q. eligible t ?sb r"
  proof -
    from that obtain r where sel: "claim_select t ?sb q = Some r"
      using claim_select_None [of t ?sb q] by (cases "claim_select t ?sb q") auto
    note r = claim_select_Some [OF sel]
    from r have win: "snd (claim_update t owner ?sb (permit_key r) q) = 1"
      using claim_update_wins [OF wf] by blast
    from r have row: "row_of (permit_key r) (fst (claim_update t owner ?sb (permit_key r) q))
           = Some (r\<lparr>status := InProgress, locked_at := Some t,
                      lock_owner := Some owner, updated_at := t\<rparr>)"
      using row_of_claim_update [OF wf] by blast
    have "snd (claim_one owner lock_timeout_s t q) = Some (permit_key r)"
      "fst (claim_one owner lock_timeout_s t q) = fst (claim_update t owner ?sb (permit_key r) q)"
      using win by (simp_all add: claim_one_def sel case_prod_beta)
    with r row show ?thesis by auto
  qed
  have never: "snd (claim_one owner lock_timeout_s t q) \<noteq> Some (permit_key r)"
    if "r \<in> set q" and "\<not> eligible t ?sb r" for r
  proof (cases "\<exists>x \<in> set q. eligible t ?sb x")
    case True
    from some [OF this] obtain x where x: "x \<in> set q" "eligible t ?sb x"
        "snd (claim_one owner lock_timeout_s t q) = Some (permit_key x)"
      by blast
    have "permit_key x \<noteq> permit_key r"
      using unique_row [OF wf x(1) that(1)] x(2) that(2) by auto
    with x(3) show ?thesis by simp
  next
    case False
    with none show ?thesis by simp
  qed
  have elig: "eligible t ?sb r \<longleftrightarrow>
           status r = Pending
           \<or> (status r = Failed \<and> (\<exists>n. next_retry_at r = Some n \<and> n \<le> t))
           \<or> (status r = InProgress
               \<and> (locked_at r = None \<or> (\<exists>l. locked_at r = Some l \<and> l \<le> ?sb)))" for r
    by (auto simp: eligible_def split: option.splits)
  have key: "claim_order_key r
             = ((case status r of Pending \<Rightarrow> 0 | Failed \<Rightarrow> 1 | InProgress \<Rightarrow> 2 | Done \<Rightarrow> 9),
                (case next_retry_at r of None \<Rightarrow> 0 | Some n \<Rightarrow> n), updated_at r)" for r
    by (simp add: claim_order_key_def status_rank_def coalesce0_def)
  from none some never elig key claim_order_key_le show ?thesis
    by blast
qed

theorem claim_one_contract_witness:
  "wf_queue example_queue
   \<and> snd (claim_one ''w'' 1800 10000 example_queue) = Some ''c''
   \<and> snd (claim_one ''w'' 1800 10000 example_queue) \<noteq> Some ''d''
   \<and> snd (claim_one ''w'' 1800 10000 example_queue) \<noteq> Some ''e''
   \<and> \<not> eligible 10000 (10000 - 1800) (example_row ''d'' Failed 12 None None 500)
   \<and> \<not> eligible 10000 (10000 - 1800) (example_row ''e'' InProgress 0 None (Some 9000) 9000)
   \<and> claim_one ''w'' 1800 10000 [example_row ''d'' Failed 12 None None 500]
       = ([example_row ''d'' Failed 12 None None 500], None)"
proof -
  have wf: "wf_queue example_queue"
    by (simp add: wf_queue_def queue_keys_def example_queue_def example_row_def)
  have wfd: "wf_queue [example_row ''d'' Failed 12 None None 500]"
    by (simp add: wf_queue_def queue_keys_def)
  have c: "snd (claim_one ''w'' 1800 10000 example_queue) = Some ''c''"
    by code_simp
  have d: "\<not> eligible 10000 (10000 - 1800) (example_row ''d'' Failed 12 None None 500)"
    by (simp add: eligible_def example_row_def)
  have e: "\<not> eligible 10000 (10000 - 1800) (example_row ''e'' InProgress 0 None (Some 9000) 9000)"
    by (simp add: eligible_def example_row_def)
  have mem: "example_row ''d'' Failed 12 None None 500 \<in> set example_queue"
      "example_row ''e'' InProgress 0 None (Some 9000) 9000 \<in> set example_queue"
    by (simp_all add: example_queue_def)
  have keys: "permit_key (example_row ''d'' Failed 12 None None 500) = ''d''"
      "permit_key (example_row ''e'' InProgress 0 None (Some 9000) 9000) = ''e''"
    by (simp_all add: example_row_def)
  from claim_one_contract [OF wf, of 10000 1800 "''w''"] d e mem
  have "snd (claim_one ''w'' 1800 10000 example_queue)
          \<noteq> Some (permit_key (example_row ''d'' Failed 12 None None 500))"
    and "snd (claim_one ''w'' 1800 10000 example_queue)
          \<noteq> Some (permit_key (example_row ''e'' InProgress 0 None (Some 9000) 9000))"
    by blast+
  then have never: "snd (claim_one ''w'' 1800 10000 example_queue) \<noteq> Some ''d''"
      "snd (claim_one ''w'' 1800 10000 example_queue) \<noteq> Some ''e''"
    unfolding keys by blast+
  from claim_one_contract [OF wfd, of 10000 1800 "''w''"] d
  have none: "claim_one ''w'' 1800 10000 [example_row ''d'' Failed 12 None None 500]
       = ([example_row ''d'' Failed 12 None None 500], None)"
    by simp
  from wf c never d e none show ?thesis
    by blast
qed

text \<open>
  Claim C2 as stated fails where it reads an absent \<^verbatim>\<open>next_retry_at\<close> as earliest.
  In the example history both leases are stale at time 1700010000. Row \<open>a\<close> has no
  retry time and the older \<^verbatim>\<open>updated_at\<close>, so it comes first in the order as stated;
  row \<open>b\<close> has the retry time \<open>-299999970\<close>, which \<^verbatim>\<open>COALESCE(next_retry_at, 0)\<close>
  puts before the 0 of row \<open>a\<close>, and \<open>b\<close> is claimed.
\<close>

theorem claim_order_counterexample:
  "example_trace
     = [(example_row ''a'' InProgress 0 None (Some 1700000010) 1700000010)
          \<lparr>lock_owner := Some ''w1''\<rparr>,
        (example_row ''b'' InProgress 1 (Some (- 299999970)) (Some 1700000040) 1700000040)
          \<lparr>lock_owner := Some ''w2'', last_error := Some ''RateLimitError: HTTP 429 for b''\<rparr>]
   \<and> wf_queue example_trace
   \<and> snd (claim_one ''w3'' 1800 1700010000 example_trace) = Some ''b''
   \<and> eligible 1700010000 (1700010000 - 1800)
        ((example_row ''a'' InProgress 0 None (Some 1700000010) 1700000010)
           \<lparr>lock_owner := Some ''w1''\<rparr>)
   \<and> spec_precedes
        ((example_row ''a'' InProgress 0 None (Some 1700000010) 1700000010)
           \<lparr>lock_owner := Some ''w1''\<rparr>)
        ((example_row ''b'' InProgress 1 (Some (- 299999970)) (Some 1700000040) 1700000040)
           \<lparr>lock_owner := Some ''w2'', last_error := Some ''RateLimitError: HTTP 429 for b''\<rparr>)"
proof -
  have tr: "example_trace
     = [(example_row ''a'' InProgress 0 None (Some 1700000010) 1700000010)
          \<lparr>lock_owner := Some ''w1''\<rparr>,
        (example_row ''b'' InProgress 1 (Some (- 299999970)) (Some 1700000040) 1700000040)
          \<lparr>lock_owner := Some ''w2'', last_error := Some ''RateLimitError: HTTP 429 for b''\<rparr>]"
    by code_simp
  have wf: "wf_queue example_trace"
    unfolding tr by (simp add: wf_queue_def queue_keys_def example_row_def)
  have b: "snd (claim_one ''w3'' 1800 1700010000 example_trace) = Some ''b''"
    by code_simp
  have a: "eligible 1700010000 (1700010000 - 1800)
        ((example_row ''a'' InProgress 0 None (Some 1700000010) 1700000010)
           \<lparr>lock_owner := Some ''w1''\<rparr>)"
    by (simp add: eligible_def example_row_def)
  have p: "spec_precedes
        ((example_row ''a'' InProgress 0 None (Some 1700000010) 1700000010)
           \<lparr>lock_owner := Some ''w1''\<rparr>)
        ((example_row ''b'' InProgress 1 (Some (- 299999970)) (Some 1700000040) 1700000040)
           \<lparr>lock_owner := Some ''w2'', last_error := Some ''RateLimitError: HTTP 429 for b''\<rparr>)"
    by (simp add: spec_precedes_def spec_retry_before_def example_row_def)
  from tr wf b a p show ?thesis
    by blast
qed

section \<open>The claim, run by several workers\<close>

text \<open>
  A worker that runs its two statements with nobody in between does what \<^verbatim>\<open>claim_one\<close>
  does.
\<close>

lemma claim_one_as_steps:
  "run_schedule [c] [0, 0] (q, initial_pcs [c])
     = (fst (claim_one (c_owner c) (c_timeout c) (c_now c) q),
        [Finished (snd (claim_one (c_owner c) (c_timeout c) (c_now c) q))])"
  by (cases "claim_select (c_now c) (c_now c - c_timeout c) q")
    (simp_all add: initial_pcs_def claim_step_def claim_one_def Let_def case_prod_beta)

lemma lease_held_not_eligible:
  assumes "lease_held cs r" "within_lease cs" "c \<in> set cs"
  shows "\<not> eligible (c_now c) (c_now c - c_timeout c) r"
proof -
  from assms(1) obtain c' where c': "c' \<in> set cs" "locked_at r = Some (c_now c')"
      "status r = InProgress"
    by (auto simp: lease_held_def)
  from assms(2,3) c'(1) have "c_now c - c_timeout c < c_now c'"
    by (auto simp: within_lease_def list_all_iff)
  with c' show ?thesis
    by (simp add: eligible_def)
qed

lemma queue_keys_claim_update:
  "queue_keys (fst (claim_update t owner sb k q)) = queue_keys q"
  by (simp add: claim_update_def queue_keys_def comp_def)

lemma lease_held_claim_update:
  assumes "r \<in> set q" "lease_held cs r" "c \<in> set cs"
  shows "\<exists>r' \<in> set (fst (claim_update (c_now c) owner sb k q)).
           permit_key r' = permit_key r \<and> lease_held cs r'"
proof (cases "claim_guard (c_now c) sb k r")
  case True
  let ?r' = "r\<lparr>status := InProgress, locked_at := Some (c_now c),
                lock_owner := Some owner, updated_at := c_now c\<rparr>"
  have "?r' \<in> set (fst (claim_update (c_now c) owner sb k q))"
    using assms(1) True by (force simp: claim_update_def)
  moreover have "lease_held cs ?r'" "permit_key ?r' = permit_key r"
    using assms(3) by (auto simp: lease_held_def)
  ultimately show ?thesis by blast
next
  case False
  then have "r \<in> set (fst (claim_update (c_now c) owner sb k q))"
    using assms(1) by (force simp: claim_update_def)
  with assms(2) show ?thesis by blast
qed

lemma claim_update_won:
  assumes "snd (claim_update t owner sb k q) = 1"
  shows "\<exists>r \<in> set q. permit_key r = k \<and> eligible t sb r"
proof -
  from assms have "filter (claim_guard t sb k) q \<noteq> []"
    by (auto simp: claim_update_def)
  then obtain r where "r \<in> set q" "claim_guard t sb k r"
    by (auto simp: filter_empty_conv)
  then show ?thesis by (auto simp: claim_guard_def)
qed

lemma claim_update_new_lease:
  assumes "r \<in> set q" "permit_key r = k" "eligible (c_now c) sb r" "c \<in> set cs"
  shows "\<exists>r' \<in> set (fst (claim_update (c_now c) owner sb k q)).
           permit_key r' = k \<and> lease_held cs r'"
proof -
  let ?r' = "r\<lparr>status := InProgress, locked_at := Some (c_now c),
                lock_owner := Some owner, updated_at := c_now c\<rparr>"
  have "?r' \<in> set (fst (claim_update (c_now c) owner sb k q))"
    using assms(1-3) by (force simp: claim_update_def claim_guard_def)
  moreover have "lease_held cs ?r'" "permit_key ?r' = k"
    using assms(2,4) by (auto simp: lease_held_def)
  ultimately show ?thesis by blast
qed

lemma claims_invI:
  assumes "length pcs = length cs" and "wf_queue q"
    and "\<And>j k. j < length cs \<Longrightarrow> pcs ! j = Finished (Some k) \<Longrightarrow>
           (\<exists>r \<in> set q. permit_key r = k \<and> lease_held cs r)
           \<and> (\<forall>j' < length cs. pcs ! j' = Finished (Some k) \<longrightarrow> j' = j)"
  shows "claims_inv cs (q, pcs)"
  using assms by (simp add: claims_inv_def)

lemma claim_step_inv:
  assumes inv: "claims_inv cs (q, pcs)" and wl: "within_lease cs" and i: "i < length cs"
    and step: "claim_step (cs ! i) (pcs ! i) q = (p', q')"
  shows "claims_inv cs (q', pcs[i := p'])"
proof -
  let ?c = "cs ! i"
  let ?t = "c_now ?c"
  let ?sb = "?t - c_timeout ?c"
  from inv have len: "length pcs = length cs" and wf: "wf_queue q"
    and won: "\<And>j k. j < length cs \<Longrightarrow> pcs ! j = Finished (Some k) \<Longrightarrow>
                (\<exists>r \<in> set q. permit_key r = k \<and> lease_held cs r)
                \<and> (\<forall>j' < length cs. pcs ! j' = Finished (Some k) \<longrightarrow> j' = j)"
    by (auto simp: claims_inv_def)
  have ci: "?c \<in> set cs" using i by simp
  have ip: "i < length pcs" using i len by simp
  show ?thesis
  proof (cases "pcs ! i")
    case Start
    with step have q': "q' = q" and p': "\<And>k. p' \<noteq> Finished (Some k)"
      by (auto simp: claim_step_def Let_def split: option.splits)
    show ?thesis
      unfolding q'
    proof (rule claims_invI)
      show "length (pcs[i := p']) = length cs" using len by simp
      show "wf_queue q" by (rule wf)
      fix j k
      assume j: "j < length cs" and f: "pcs[i := p'] ! j = Finished (Some k)"
      from f p' ip have ji: "j \<noteq> i" by (auto simp: nth_list_update)
      with f have pj: "pcs ! j = Finished (Some k)" by simp
      have "j' = j" if "j' < length cs" "pcs[i := p'] ! j' = Finished (Some k)" for j'
      proof -
        from that p' ip have "j' \<noteq> i" by (auto simp: nth_list_update)
        with that have "pcs ! j' = Finished (Some k)" by simp
        with won [OF j pj] that(1) show ?thesis by blast
      qed
      with won [OF j pj]
      show "(\<exists>r \<in> set q. permit_key r = k \<and> lease_held cs r)
            \<and> (\<forall>j' < length cs. pcs[i := p'] ! j' = Finished (Some k) \<longrightarrow> j' = j)"
        by blast
    qed
  next
    case (Finished r)
    with step have "q' = q" "p' = pcs ! i"
      by (auto simp: claim_step_def Let_def)
    with inv show ?thesis
      by (simp add: list_update_id)
  next
    case (Selected k0)
    with step have q': "q' = fst (claim_update ?t (c_owner ?c) ?sb k0 q)"
      and p': "p' = Finished (if snd (claim_update ?t (c_owner ?c) ?sb k0 q) \<noteq> 1
                              then None else Some k0)"
      by (auto simp: claim_step_def Let_def split: prod.splits)
    have wf': "wf_queue q'"
      using wf by (simp add: q' wf_queue_def queue_keys_claim_update)
    have keep: "\<exists>r' \<in> set q'. permit_key r' = k' \<and> lease_held cs r'"
      if "\<exists>r \<in> set q. permit_key r = k' \<and> lease_held cs r" for k'
    proof -
      from that obtain r where r: "r \<in> set q" "permit_key r = k'" "lease_held cs r"
        by blast
      from lease_held_claim_update [OF r(1) r(3) ci, of "c_owner ?c" ?sb k0] r(2)
      show ?thesis unfolding q' by auto
    qed
    have old: "pcs ! j = Finished (Some k)"
      if "j \<noteq> i" "pcs[i := p'] ! j = Finished (Some k)" for j k
      using that by simp
    show ?thesis
    proof (cases "snd (claim_update ?t (c_owner ?c) ?sb k0 q) = 1")
      case False
      with p' have p'': "p' = Finished None" by simp
      show ?thesis
      proof (rule claims_invI)
        show "length (pcs[i := p']) = length cs" using len by simp
        show "wf_queue q'" by (rule wf')
        fix j k
        assume j: "j < length cs" and f: "pcs[i := p'] ! j = Finished (Some k)"
        from f p'' ip have ji: "j \<noteq> i" by (auto simp: nth_list_update)
        note pj = old [OF ji f]
        have "j' = j" if "j' < length cs" "pcs[i := p'] ! j' = Finished (Some k)" for j'
        proof -
          from that p'' ip have "j' \<noteq> i" by (auto simp: nth_list_update)
          from old [OF this that(2)] won [OF j pj] that(1) show ?thesis by blast
        qed
        with won [OF j pj] keep [of k]
        show "(\<exists>r \<in> set q'. permit_key r = k \<and> lease_held cs r)
              \<and> (\<forall>j' < length cs. pcs[i := p'] ! j' = Finished (Some k) \<longrightarrow> j' = j)"
          by blast
      qed
    next
      case True
      with p' have p'': "p' = Finished (Some k0)" by simp
      from claim_update_won [OF True] obtain r where r: "r \<in> set q" "permit_key r = k0"
          "eligible ?t ?sb r"
        by blast
      have fresh: "pcs ! j \<noteq> Finished (Some k0)" if "j < length cs" for j
      proof
        assume "pcs ! j = Finished (Some k0)"
        from won [OF that this] obtain r0 where r0: "r0 \<in> set q" "permit_key r0 = k0"
            "lease_held cs r0"
          by blast
        have "r0 = r"
          using unique_row [OF wf r0(1) r(1)] r0(2) r(2) by simp
        with lease_held_not_eligible [OF r0(3) wl ci] r(3) show False
          by simp
      qed
      have new: "\<exists>r' \<in> set q'. permit_key r' = k0 \<and> lease_held cs r'"
        unfolding q' using claim_update_new_lease [OF r ci] by blast
      show ?thesis
      proof (rule claims_invI)
        show "length (pcs[i := p']) = length cs" using len by simp
        show "wf_queue q'" by (rule wf')
        fix j k
        assume j: "j < length cs" and f: "pcs[i := p'] ! j = Finished (Some k)"
        show "(\<exists>r \<in> set q'. permit_key r = k \<and> lease_held cs r)
              \<and> (\<forall>j' < length cs. pcs[i := p'] ! j' = Finished (Some k) \<longrightarrow> j' = j)"
        proof (cases "j = i")
          case True
          with f p'' ip have kk: "k = k0" by simp
          have "j' = j" if "j' < length cs" "pcs[i := p'] ! j' = Finished (Some k)" for j'
          proof (rule ccontr)
            assume "j' \<noteq> j"
            with True have "j' \<noteq> i" by simp
            from old [OF this that(2)] fresh [OF that(1)] kk show False by simp
          qed
          with new kk show ?thesis by blast
        next
          case False
          note pj = old [OF False f]
          from fresh [OF j] pj have kk: "k \<noteq> k0" by auto
          have "j' = j" if "j' < length cs" "pcs[i := p'] ! j' = Finished (Some k)" for j'
          proof -
            from that(2) p'' kk ip have "j' \<noteq> i" by (auto simp: nth_list_update)
            from old [OF this that(2)] won [OF j pj] that(1) show ?thesis by blast
          qed
          with won [OF j pj] keep [of k] show ?thesis by blast
        qed
      qed
    qed
  qed
qed

lemma run_schedule_inv:
  assumes "claims_inv cs cfg" and "within_lease cs"
  shows "claims_inv cs (run_schedule cs sched cfg)"
  using assms(1)
proof (induction sched arbitrary: cfg)
  case Nil
  then show ?case by simp
next
  case (Cons i sched)
  obtain q pcs where cfg: "cfg = (q, pcs)" by (cases cfg)
  show ?case
  proof (cases "i < length cs \<and> i < length pcs")
    case True
    obtain p' q' where st: "claim_step (cs ! i) (pcs ! i) q = (p', q')"
      by (cases "claim_step (cs ! i) (pcs ! i) q")
    from claim_step_inv [OF Cons.prems [unfolded cfg] assms(2) _ st] True
    have "claims_inv cs (q', pcs[i := p'])" by simp
    from Cons.IH [OF this] show ?thesis
      using True by (simp add: cfg st)
  next
    case False
    then have "run_schedule cs (i # sched) (q, pcs) = run_schedule cs sched (q, pcs)"
      by auto
    with Cons.IH [OF Cons.prems] show ?thesis
      by (simp only: cfg)
  qed
qed

lemma initial_inv: "wf_queue q \<Longrightarrow> claims_inv cs (q, initial_pcs cs)"
  by (simp add: claims_inv_def initial_pcs_def)

text \<open>
  Claim C1, as the code has it. Workers run \<^verbatim>\<open>claim_one\<close> against one table with
  unique keys, their statements interleaved in any order. If the workers are within one
  lease of each other (every worker's \<^verbatim>\<open>t - lock_timeout_s\<close> lies before every
  worker's clock reading), no key is reported as claimed by two workers. The update is
  guarded by the eligibility predicate: a worker reports a key only if a row with that
  key was eligible when its update ran, and a worker whose update changed no row reports
  no claim and leaves the table as it was.
\<close>

theorem no_double_claim:
  "wf_queue q \<Longrightarrow> within_lease cs \<Longrightarrow>
     (\<forall>i < length cs. \<forall>j < length cs. \<forall>k.
        snd (run_schedule cs sched (q, initial_pcs cs)) ! i = Finished (Some k)
        \<and> snd (run_schedule cs sched (q, initial_pcs cs)) ! j = Finished (Some k)
        \<longrightarrow> i = j)
     \<and> (\<forall>c k q0. fst (claim_step c (Selected k) q0) = Finished (Some k)
           \<longrightarrow> (\<exists>r \<in> set q0. permit_key r = k \<and> eligible (c_now c) (c_now c - c_timeout c) r))
     \<and> (\<forall>c k q0. snd (claim_update (c_now c) (c_owner c) (c_now c - c_timeout c) k q0) = 0
           \<longrightarrow> claim_step c (Selected k) q0 = (Finished None, q0))"
proof -
  assume wf: "wf_queue q" and wl: "within_lease cs"
  obtain q' pcs' where run: "run_schedule cs sched (q, initial_pcs cs) = (q', pcs')"
    by (cases "run_schedule cs sched (q, initial_pcs cs)")
  from run_schedule_inv [OF initial_inv [OF wf] wl, of sched]
  have inv: "claims_inv cs (q', pcs')" by (simp add: run)
  have uniq: "\<forall>i < length cs. \<forall>j < length cs. \<forall>k.
        pcs' ! i = Finished (Some k) \<and> pcs' ! j = Finished (Some k) \<longrightarrow> i = j"
    using inv by (auto simp: claims_inv_def)
  have guarded: "\<exists>r \<in> set q0. permit_key r = k \<and> eligible (c_now c) (c_now c - c_timeout c) r"
    if "fst (claim_step c (Selected k) q0) = Finished (Some k)" for c k q0
  proof -
    from that have "snd (claim_update (c_now c) (c_owner c) (c_now c - c_timeout c) k q0) = 1"
      by (auto simp: claim_step_def Let_def case_prod_beta split: if_splits)
    then show ?thesis by (rule claim_update_won)
  qed
  have zero: "claim_step c (Selected k) q0 = (Finished None, q0)"
    if "snd (claim_update (c_now c) (c_owner c) (c_now c - c_timeout c) k q0) = 0" for c k q0
  proof -
    from that have "filter (claim_guard (c_now c) (c_now c - c_timeout c) k) q0 = []"
      by (simp add: claim_update_def)
    then have "fst (claim_update (c_now c) (c_owner c) (c_now c - c_timeout c) k q0) = q0"
      by (auto simp: claim_update_def filter_empty_conv intro: map_idI)
    with that show ?thesis
      by (simp add: claim_step_def Let_def case_prod_beta)
  qed
  from uniq guarded zero show ?thesis
    unfolding run by auto
qed

text \<open>
  Two workers one second apart race for the pending row \<open>a\<close>; both select it, the
  first update wins and the second changes nothing.
\<close>

theorem no_double_claim_witness:
  "wf_queue [example_row ''a'' Pending 0 None None 50, example_row ''b'' Pending 0 None None 60]
   \<and> within_lease [worker ''w1'' 100 1800, worker ''w2'' 101 1800]
   \<and> run_schedule [worker ''w1'' 100 1800, worker ''w2'' 101 1800] [0, 1, 0, 1]
        ([example_row ''a'' Pending 0 None None 50, example_row ''b'' Pending 0 None None 60],
         initial_pcs [worker ''w1'' 100 1800, worker ''w2'' 101 1800])
       = ([(example_row ''a'' InProgress 0 None (Some 100) 100)\<lparr>lock_owner := Some ''w1''\<rparr>,
           example_row ''b'' Pending 0 None None 60],
          [Finished (Some ''a''), Finished None])"
proof -
  let ?q = "[example_row ''a'' Pending 0 None None 50, example_row ''b'' Pending 0 None None 60]"
  let ?cs = "[worker ''w1'' 100 1800, worker ''w2'' 101 1800]"
  have wf: "wf_queue ?q"
    by (simp add: wf_queue_def queue_keys_def example_row_def)
  have wl: "within_lease ?cs"
    by (simp add: within_lease_def worker_def)
  have run: "run_schedule ?cs [0, 1, 0, 1] (?q, initial_pcs ?cs)
       = ([(example_row ''a'' InProgress 0 None (Some 100) 100)\<lparr>lock_owner := Some ''w1''\<rparr>,
           example_row ''b'' Pending 0 None None 60],
          [Finished (Some ''a''), Finished None])"
    by code_simp
  from no_double_claim [OF wf wl, of "[0, 1, 0, 1]"] wf wl run show ?thesis
    by blast
qed

text \<open>
  Claim C1 as stated fails for workers that are not within one lease of each other.
  With a lock timeout of 0, two workers that read the same clock second both select the
  pending row \<open>a\<close> and both updates succeed; with the timeout 1800, so do two
  interleaved calls whose clock readings are 1800 seconds apart. Either way both report
  the claim of \<open>a\<close>.
\<close>

theorem double_claim_counterexample:
  "run_schedule [worker ''w1'' 100 0, worker ''w2'' 100 0] [0, 1, 0, 1]
        ([example_row ''a'' Pending 0 None None 50],
         initial_pcs [worker ''w1'' 100 0, worker ''w2'' 100 0])
       = ([(example_row ''a'' InProgress 0 None (Some 100) 100)\<lparr>lock_owner := Some ''w2''\<rparr>],
          [Finished (Some ''a''), Finished (Some ''a'')])
   \<and> run_schedule [worker ''w1'' 100 1800, worker ''w2'' 1900 1800] [0, 1, 0, 1]
        ([example_row ''a'' Pending 0 None None 50],
         initial_pcs [worker ''w1'' 100 1800, worker ''w2'' 1900 1800])
       = ([(example_row ''a'' InProgress 0 None (Some 1900) 1900)\<lparr>lock_owner := Some ''w2''\<rparr>],
          [Finished (Some ''a''), Finished (Some ''a'')])"
  by code_simp

section \<open>The daily selector\<close>

lemma combine_loop_char:
  "seen = set out \<Longrightarrow> int (length out) < limit \<Longrightarrow>
     combine_loop limit ks out seen
       = take (nat limit) (out @ distinct_first (filter (\<lambda>k. k \<notin> set out) ks))"
proof (induction ks arbitrary: out seen)
  case Nil
  then show ?case by simp
next
  case (Cons k ks)
  show ?case
  proof (cases "k \<in> seen")
    case True
    with Cons.prems Cons.IH [OF Cons.prems] show ?thesis
      by (simp add: Let_def)
  next
    case False
    have f: "filter (\<lambda>x. x \<notin> set (out @ [k])) ks
               = filter (\<lambda>y. y \<noteq> k) (filter (\<lambda>x. x \<notin> set out) ks)"
      by (auto intro: filter_cong)
    show ?thesis
    proof (cases "int (length (out @ [k])) \<ge> limit")
      case True
      with Cons.prems have "nat limit = length out + 1" by simp
      with True False Cons.prems show ?thesis
        by (simp add: Let_def)
    next
      case stay: False
      have "combine_loop limit (k # ks) out seen = combine_loop limit ks (out @ [k]) (insert k seen)"
        using stay False by (simp add: Let_def)
      also have "\<dots> = take (nat limit)
                          ((out @ [k]) @ distinct_first (filter (\<lambda>x. x \<notin> set (out @ [k])) ks))"
        using stay Cons.prems by (intro Cons.IH) auto
      also have "(out @ [k]) @ distinct_first (filter (\<lambda>x. x \<notin> set (out @ [k])) ks)
                   = out @ distinct_first (filter (\<lambda>x. x \<notin> set out) (k # ks))"
      proof -
        have "distinct_first (filter (\<lambda>x. x \<notin> set out) (k # ks))
                = k # distinct_first (filter (\<lambda>y. y \<noteq> k) (filter (\<lambda>x. x \<notin> set out) ks))"
          using False Cons.prems(1) by (simp del: filter_filter)
        then show ?thesis
          by (simp only: f append_assoc append_Cons append_Nil)
      qed
      finally show ?thesis .
    qed
  qed
qed

lemma distinct_first_append:
  "distinct_first (xs @ ys)
     = distinct_first xs @ distinct_first (filter (\<lambda>y. y \<notin> set xs) ys)"
proof (induction xs arbitrary: ys rule: distinct_first.induct)
  case 1
  show ?case by simp
next
  case (2 x xs)
  have f: "filter (\<lambda>y. y \<notin> set (filter (\<lambda>y. y \<noteq> x) xs)) (filter (\<lambda>y. y \<noteq> x) ys)
             = filter (\<lambda>y. y \<noteq> x) (filter (\<lambda>y. y \<notin> set (x # xs)) ys)"
    by (auto intro: filter_cong)
  have g: "filter (\<lambda>y. y \<noteq> x) (filter (\<lambda>y. y \<notin> set (x # xs)) ys)
             = filter (\<lambda>y. y \<notin> set (x # xs)) ys"
    by (auto intro: filter_cong)
  show ?case
    using "2.IH" [of "filter (\<lambda>y. y \<noteq> x) ys"]
    by (simp only: append_Cons distinct_first.simps filter_append f g)
qed

lemma distinct_first_id: "distinct xs \<Longrightarrow> distinct_first xs = xs"
proof (induction xs)
  case Nil
  show ?case by simp
next
  case (Cons a xs)
  then have "filter (\<lambda>y. y \<noteq> a) xs = xs"
    by (auto simp: filter_id_conv)
  with Cons show ?case by simp
qed


lemma take_distinct_first_limit:
  assumes "distinct B"
  shows "take n (distinct_first (A @ take n B)) = take n (distinct_first (A @ B))"
proof (cases "n \<le> length B")
  case False
  then show ?thesis by simp
next
  case True
  let ?P = "\<lambda>y. y \<notin> set A"
  let ?dA = "distinct_first A"
  let ?F1 = "filter ?P (take n B)"
  let ?F2 = "filter ?P (drop n B)"
  have dB1: "distinct (take n B)" using assms by simp
  have B: "filter ?P B = ?F1 @ ?F2"
    by (metis append_take_drop_id filter_append)
  have "distinct_first (filter ?P B) = filter ?P B"
    using assms by (intro distinct_first_id) simp
  then have full: "distinct_first (A @ B) = ?dA @ ?F1 @ ?F2"
    by (simp only: distinct_first_append [of A B] B)
  have "distinct_first ?F1 = ?F1"
    using dB1 by (intro distinct_first_id) simp
  then have part: "distinct_first (A @ take n B) = ?dA @ ?F1"
    by (simp only: distinct_first_append [of A "take n B"])
  let ?G = "filter (\<lambda>y. \<not> ?P y) (take n B)"
  have "distinct ?G" using dB1 by simp
  then have "length ?G = card (set ?G)"
    by (rule distinct_card [symmetric])
  also have "\<dots> \<le> card (set A)"
    by (rule card_mono) auto
  also have "\<dots> = length ?dA"
    using distinct_card [OF distinct_distinct_first, of A] by (simp add: set_distinct_first)
  finally have G: "length ?G \<le> length ?dA" .
  have "length ?F1 + length ?G = length (take n B)"
    by (rule sum_length_filter_compl)
  with True G have "n \<le> length (?dA @ ?F1)" by simp
  then show ?thesis
    unfolding full part by simp
qed

lemma insort_key_map_distinct:
  "distinct (map g (insort_key f x xs)) \<longleftrightarrow> g x \<notin> g ` set xs \<and> distinct (map g xs)"
  by (induction xs) (auto simp: set_insort_key)

lemma sort_key_map_distinct:
  "distinct (map g (sort_key f xs)) \<longleftrightarrow> distinct (map g xs)"
  by (induction xs) (auto simp: insort_key_map_distinct)

lemma left_join_keys:
  assumes "distinct (map fs_permit_key fs)"
  shows "map fst (left_join_state pc fs) = pc"
proof -
  have one: "map fst (case filter (\<lambda>s. fs_permit_key s = k) fs of
                        [] \<Rightarrow> [(k, None, None)]
                      | ss \<Rightarrow> map (\<lambda>s. (k, last_fetched_at s, fs_next_retry_at s)) ss) = [k]" for k
  proof -
    have "length (filter (\<lambda>s. fs_permit_key s = k) fs) \<le> 1"
      using assms
    proof (induction fs)
      case Nil
      show ?case by simp
    next
      case (Cons a fs)
      show ?case
      proof (cases "fs_permit_key a = k")
        case True
        with Cons.prems have "\<forall>s \<in> set fs. fs_permit_key s \<noteq> k" by (metis distinct.simps(2) imageI list.simps(9) list.set_map)
        then have "filter (\<lambda>s. fs_permit_key s = k) fs = []"
          by (auto simp: filter_empty_conv)
        with True show ?thesis by simp
      next
        case False
        with Cons show ?thesis by simp
      qed
    qed
    then show ?thesis
      by (cases "filter (\<lambda>s. fs_permit_key s = k) fs") (auto split: list.splits)
  qed
  show ?thesis
    unfolding left_join_state_def
    by (induction pc) (simp_all add: one)
qed

lemma stale_sorted_distinct:
  assumes "distinct pc" and "distinct (map fs_permit_key fs)"
  shows "distinct (stale_sorted sb t pc fs)"
proof -
  have "distinct (map fst (left_join_state pc fs))"
    using assms by (simp add: left_join_keys)
  then have "distinct (map fst (filter (stale_where sb t) (left_join_state pc fs)))"
    by (rule distinct_map_filter)
  then show ?thesis
    by (simp add: stale_sorted_def sort_key_map_distinct)
qed

lemma pick_today_permits_char:
  assumes "1 \<le> limit" and "distinct pc" and "distinct (map fs_permit_key fs)"
  shows "pick_today_permits strftime t oh pc fs changed_since_days stale_after_days limit
           = take (nat limit)
               (distinct_first
                  (recent_keys_of (strftime (t - changed_since_days * 86400)) oh
                   @ stale_sorted (t - stale_after_days * 86400) t pc fs))"
proof -
  let ?A = "recent_keys_of (strftime (t - changed_since_days * 86400)) oh"
  let ?B = "stale_sorted (t - stale_after_days * 86400) t pc fs"
  have lim: "sql_limit limit ?B = take (nat limit) ?B"
    using assms(1) by (simp add: sql_limit_def)
  have "pick_today_permits strftime t oh pc fs changed_since_days stale_after_days limit
          = combine_loop limit (?A @ take (nat limit) ?B) [] {}"
    by (simp add: pick_today_permits_def Let_def lim)
  also have "\<dots> = take (nat limit) (distinct_first (?A @ take (nat limit) ?B))"
    using assms(1) by (simp add: combine_loop_char)
  also have "\<dots> = take (nat limit) (distinct_first (?A @ ?B))"
    using stale_sorted_distinct [OF assms(2,3)] by (rule take_distinct_first_limit)
  finally show ?thesis .
qed

text \<open>
  With the example tables and the limit 3 the selection is \<open>B, A, C\<close>: the changed
  keys in their order of discovery, then the least recently checked stale key.
\<close>

lemma pick_today_permits_example:
  "pick_today_permits example_date 1700000000 example_changes
       [''A'', ''B'', ''C'', ''D'', ''E''] example_states 7 30 3
     = [''B'', ''A'', ''C'']"
  by code_simp

text \<open>
  Claim C7 at the limit 0. The merging loop tests \<^verbatim>\<open>len(out) >= limit\<close> only after it
  has appended a key, so with one recent ownership change the selection for the limit 0
  holds one key, and is longer than the limit.
\<close>

theorem pick_today_permits_limit_zero:
  "pick_today_permits example_date 1700000000 example_changes
       [''A'', ''B'', ''C'', ''D'', ''E''] example_states 7 30 0
     = [''B'']"
  by code_simp

section \<open>The pass of the daily run and its exit\<close>

lemma daily_item_counts:
  assumes "d_upsert_404_outcome e = None"
  shows "\<exists>s'. daily_item py_int e k s = Inr s'
           \<and> ok s' + rate_limited s' + failed s' = ok s + rate_limited s + failed s + 1"
  using assms
  by (auto simp: daily_item_def daily_handle_def daily_failed_def Let_def
      split: sum.splits option.splits exc.splits)

text \<open>
  Unless the upsert of a 404 branch raises, the loop visits every selected key: each
  key adds one to exactly one of the three counters, whatever its outcome.
\<close>

lemma daily_loop_full_pass:
  assumes "\<And>j. d_upsert_404_outcome (env j) = None"
  shows "\<exists>s'. daily_loop py_int env i keys s = Inr s'
           \<and> ok s' + rate_limited s' + failed s'
               = ok s + rate_limited s + failed s + int (length keys)"
proof (induction keys arbitrary: i s)
  case Nil
  show ?case by simp
next
  case (Cons k keys)
  from daily_item_counts [where e = "env i" and py_int = py_int and k = k and s = s, OF assms]
  obtain s1 where s1: "daily_item py_int (env i) k s = Inr s1"
      "ok s1 + rate_limited s1 + failed s1 = ok s + rate_limited s + failed s + 1"
    by blast
  from Cons.IH [of "Suc i" s1]
  obtain s' where "daily_loop py_int env (Suc i) keys s1 = Inr s'"
      "ok s' + rate_limited s' + failed s'
         = ok s1 + rate_limited s1 + failed s1 + int (length keys)"
    by blast
  with s1 show ?case by simp
qed

text \<open>
  \<^verbatim>\<open>run_daily\<close> raises \<^verbatim>\<open>SystemExit(2)\<close> after the pass iff the count of rate-limited
  keys exceeds its parameter \<^verbatim>\<open>max_rate_limited\<close>.
\<close>

lemma run_daily_exit:
  assumes "\<And>j. d_upsert_404_outcome (env j) = None"
  shows "\<exists>s. run_daily py_int strftime t env oh pc fs limit csd sad max_rate_limited
               = (if rate_limited s > max_rate_limited then SystemExit 2 s else Completed s)
           \<and> ok s + rate_limited s + failed s
               = int (length (pick_today_permits strftime t oh pc fs csd sad limit))"
proof -
  from daily_loop_full_pass [where env = env and py_int = py_int and i = 1
      and keys = "pick_today_permits strftime t oh pc fs csd sad limit"
      and s = "\<lparr>state_table = fs, ok = 0, rate_limited = 0, failed = 0, upserted = []\<rparr>",
      OF assms]
  obtain s where "daily_loop py_int env 1 (pick_today_permits strftime t oh pc fs csd sad limit)
        \<lparr>state_table = fs, ok = 0, rate_limited = 0, failed = 0, upserted = []\<rparr> = Inr s"
      "ok s + rate_limited s + failed s
         = int (length (pick_today_permits strftime t oh pc fs csd sad limit))"
    by auto
  then show ?thesis
    by (auto simp: run_daily_def Let_def)
qed

text \<open>
  Claim C9, where the ceiling is the command-line flag. The entry point does not pass
  \<^verbatim>\<open>args.max_rate_limited\<close> on, so the ceiling is always 50. With
  \<^verbatim>\<open>--max-rate-limited 0\<close> and one selected key that is answered with HTTP 429, the run
  counts one rate-limited key, which exceeds the ceiling 0, and still ends normally; run
  with the ceiling 0 itself, \<^verbatim>\<open>run_daily\<close> raises \<^verbatim>\<open>SystemExit(2)\<close>.
\<close>

theorem daily_main_ignores_ceiling:
  "daily_main no_int example_date 1700000000 (daily_raises (http_error 429 None) 1700000000)
       [] [''k''] [] (example_args 300 0)
     = Completed
         \<lparr>state_table =
            [\<lparr>fs_permit_key = ''k'', last_fetched_at = Some 1700000000,
              last_ajour_date = None, last_status = Some ''rate_limited'',
              fs_last_error = Some ''HTTP 429 for k'',
              fs_next_retry_at = Some 1700000030\<rparr>],
          ok = 0, rate_limited = 1, failed = 0, upserted = []\<rparr>
   \<and> run_daily no_int example_date 1700000000 (daily_raises (http_error 429 None) 1700000000)
       [] [''k''] [] 300 7 30 0
     = SystemExit 2
         \<lparr>state_table =
            [\<lparr>fs_permit_key = ''k'', last_fetched_at = Some 1700000000,
              last_ajour_date = None, last_status = Some ''rate_limited'',
              fs_last_error = Some ''HTTP 429 for k'',
              fs_next_retry_at = Some 1700000030\<rparr>],
          ok = 0, rate_limited = 1, failed = 0, upserted = []\<rparr>"
  by code_simp

end
